theory Spec2Isabelle
  imports Complex_Main "HOL-Library.Word"
begin

section \<open>JavaScript strings\<close>

text \<open>
  A JavaScript string is a sequence of 16-bit code units, and \<open>length\<close> is the \<open>.length\<close>
  of the source.  \<open>cu c\<close> is the code unit of a character written in the source and
  \<open>units s\<close> the string of a literal of the source.
\<close>

type_synonym code_unit = "16 word"

type_synonym ustring = "code_unit list"

definition cu :: "char \<Rightarrow> code_unit" where
  "cu c = of_char c"

definition units :: "string \<Rightarrow> ustring" where
  "units s = map cu s"

definition backtick :: code_unit where
  "backtick = cu (CHR 0x60)"

definition dquote :: code_unit where
  "dquote = cu (CHR 0x22)"

definition backslash :: code_unit where
  "backslash = cu (CHR 0x5C)"

text \<open>The code units matched by \<open>\s\<close> and removed by \<open>trim()\<close>: the white space of the
  language (tab, vertical tab, form feed, space, no-break space, the byte order mark
  \<open>U+FEFF\<close> and the other space separators \<open>U+1680\<close>, \<open>U+2000\<close> to \<open>U+200A\<close>, \<open>U+202F\<close>,
  \<open>U+205F\<close>, \<open>U+3000\<close>) and its line terminators (line feed, carriage return, \<open>U+2028\<close>,
  \<open>U+2029\<close>).\<close>

definition is_space :: "code_unit \<Rightarrow> bool" where
  "is_space c \<longleftrightarrow>
     c \<in> set [0x09, 0x0A, 0x0B, 0x0C, 0x0D, 0x20, 0xA0, 0x1680,
              0x2000, 0x2001, 0x2002, 0x2003, 0x2004, 0x2005, 0x2006, 0x2007, 0x2008,
              0x2009, 0x200A, 0x2028, 0x2029, 0x202F, 0x205F, 0x3000, 0xFEFF]"

text \<open>\<open>s.trim()\<close>\<close>

definition trim :: "ustring \<Rightarrow> ustring" where
  "trim s = rev (dropWhile is_space (rev (dropWhile is_space s)))"

text \<open>\<open>s.indexOf(c)\<close> and \<open>s.lastIndexOf(c)\<close> for a one-character needle; \<open>-1\<close> when absent.\<close>

definition indexOf :: "ustring \<Rightarrow> code_unit \<Rightarrow> int" where
  "indexOf s c = (if c \<in> set s then int (length (takeWhile (\<lambda>x. x \<noteq> c) s)) else - 1)"

definition lastIndexOf :: "ustring \<Rightarrow> code_unit \<Rightarrow> int" where
  "lastIndexOf s c =
     (if c \<in> set s then int (length s) - 1 - int (length (takeWhile (\<lambda>x. x \<noteq> c) (rev s)))
      else - 1)"

text \<open>\<open>s.slice(a, b)\<close> and \<open>xs.slice(a)\<close>: a negative index counts from the end, and both
  ends are clamped to the length.\<close>

definition clamp_index :: "nat \<Rightarrow> int \<Rightarrow> nat" where
  "clamp_index n i = (if i < 0 then nat (max (int n + i) 0) else min (nat i) n)"

definition slice :: "'a list \<Rightarrow> int \<Rightarrow> int \<Rightarrow> 'a list" where
  "slice s a b = take (clamp_index (length s) b - clamp_index (length s) a)
                      (drop (clamp_index (length s) a) s)"

definition slice_from :: "'a list \<Rightarrow> int \<Rightarrow> 'a list" where
  "slice_from s a = drop (clamp_index (length s) a) s"

text \<open>\<open>s.split(' ')\<close> and \<open>ws.join(' ')\<close>\<close>

fun split :: "ustring \<Rightarrow> code_unit \<Rightarrow> ustring list" where
  "split [] sep = [[]]"
| "split (c # cs) sep =
     (if c = sep then [] # split cs sep
      else (c # hd (split cs sep)) # tl (split cs sep))"

fun join :: "ustring list \<Rightarrow> ustring \<Rightarrow> ustring" where
  "join [] sep = []"
| "join [w] sep = w"
| "join (w # ws) sep = w @ sep @ join ws sep"

text \<open>\<open>s.replace(/``````/g, '')\<close>: every match of six backticks, found from left to
  right, is removed.  The second spelling in the sources,
  \<open>s.replace(/``````/g, m => m.replace(/``````$/, ''))\<close>, replaces each match \<open>m\<close> (the six
  backticks) by \<open>m\<close> without its final six backticks, which is the empty string again.\<close>

fun strip_fences :: "ustring \<Rightarrow> ustring" where
  "strip_fences [] = []"
| "strip_fences (c # cs) =
     (if take 6 (c # cs) = replicate 6 backtick then strip_fences (drop 5 cs)
      else c # strip_fences cs)"

text \<open>\<open>s.replace(/\s+/g, ' ')\<close>: every maximal run of white space becomes one space.\<close>

function collapse_spaces :: "ustring \<Rightarrow> ustring" where
  "collapse_spaces [] = []"
| "collapse_spaces (c # cs) =
     (if is_space c then cu CHR '' '' # collapse_spaces (dropWhile is_space cs)
      else c # collapse_spaces cs)"
  by pat_completeness auto
termination
  by (relation "measure length") (auto intro: le_imp_less_Suc length_dropWhile_le)

text \<open>\<open>preprocess = txt => txt.replace(/\s+/g, ' ').replace(/[\u00A0]/g, ' ').trim()\<close>\<close>

definition preprocess :: "ustring \<Rightarrow> ustring" where
  "preprocess txt =
     trim (map (\<lambda>c. if c = cu (CHR 0xA0) then cu CHR '' '' else c) (collapse_spaces txt))"

section \<open>JSON values and \<open>JSON.parse\<close>\<close>

text \<open>
  The values \<open>JSON.parse\<close> produces.  A string holds code units.  An object is the list
  of its own properties, each key once, in the order in which the engine enumerates
  them.  A number carries the exact value of its literal; the engine holds the double
  nearest to that value, and what the code below asks of a number is whether that double
  is zero (\<open>rounds_to_zero\<close>).
\<close>

datatype json =
    JNull
  | JBool bool
  | JNum rat
  | JStr ustring
  | JArr "json list"
  | JObj "(ustring \<times> json) list"

text \<open>\<open>k in obj\<close> and \<open>obj[k]\<close> (\<open>None\<close> is \<open>undefined\<close>) on property lists, and \<open>obj[k] = v\<close>
  for a key that is not an array index: an existing key keeps its place, a new one goes
  last.\<close>

definition has_key :: "(ustring \<times> json) list \<Rightarrow> ustring \<Rightarrow> bool" where
  "has_key ms k \<longleftrightarrow> k \<in> set (map fst ms)"

definition get_prop :: "(ustring \<times> json) list \<Rightarrow> ustring \<Rightarrow> json option" where
  "get_prop ms k = map_of ms k"

fun set_prop :: "(ustring \<times> json) list \<Rightarrow> ustring \<Rightarrow> json \<Rightarrow> (ustring \<times> json) list" where
  "set_prop [] k v = [(k, v)]"
| "set_prop (p # ps) k v = (if fst p = k then (k, v) # ps else p # set_prop ps k v)"

text \<open>The white space of JSON: space, tab, line feed, carriage return.\<close>

definition json_ws :: "code_unit \<Rightarrow> bool" where
  "json_ws c \<longleftrightarrow> c \<in> set [0x20, 0x09, 0x0A, 0x0D]"

definition skip_ws :: "ustring \<Rightarrow> ustring" where
  "skip_ws s = dropWhile json_ws s"

definition is_digit :: "code_unit \<Rightarrow> bool" where
  "is_digit c \<longleftrightarrow> c \<in> set (units ''0123456789'')"

definition digit_val :: "code_unit \<Rightarrow> int" where
  "digit_val c = uint c - 48"

definition digits_val :: "ustring \<Rightarrow> int" where
  "digits_val ds = foldl (\<lambda>n c. 10 * n + digit_val c) 0 ds"

definition hex_val :: "code_unit \<Rightarrow> nat option" where
  "hex_val c =
     (if is_digit c then Some (unat c - 48)
      else if c \<in> set (units ''abcdef'') then Some (unat c - 87)
      else if c \<in> set (units ''ABCDEF'') then Some (unat c - 55)
      else None)"

text \<open>The four hexadecimal digits of a \<open>\u\<close> escape name one code unit, any of the
  65536.\<close>

definition hex4 :: "ustring \<Rightarrow> code_unit option" where
  "hex4 hs =
     (case map hex_val hs of
        [Some a, Some b, Some c, Some d] \<Rightarrow> Some (of_nat (4096 * a + 256 * b + 16 * c + d))
      | _ \<Rightarrow> None)"

definition unescape :: "code_unit \<Rightarrow> code_unit option" where
  "unescape e =
     (if e = dquote then Some dquote
      else if e = backslash then Some backslash
      else if e = cu CHR ''/'' then Some (cu CHR ''/'')
      else if e = cu CHR ''b'' then Some 0x08
      else if e = cu CHR ''f'' then Some 0x0C
      else if e = cu CHR ''n'' then Some 0x0A
      else if e = cu CHR ''r'' then Some 0x0D
      else if e = cu CHR ''t'' then Some 0x09
      else None)"

text \<open>The characters of a string literal after its opening quote, up to the closing quote.
  A code unit below \<open>0x20\<close> must be escaped; every other one stands for itself.\<close>

fun parse_chars :: "ustring \<Rightarrow> (ustring \<times> ustring) option" where
  "parse_chars [] = None"
| "parse_chars (c # cs) =
     (if c = dquote then Some ([], cs)
      else if c = backslash then
        (case cs of
           [] \<Rightarrow> None
         | e # r \<Rightarrow>
             if e = cu CHR ''u'' then
               (case hex4 (take 4 r) of
                  None \<Rightarrow> None
                | Some u \<Rightarrow> map_option (apfst ((#) u)) (parse_chars (drop 4 r)))
             else
               (case unescape e of
                  None \<Rightarrow> None
                | Some u \<Rightarrow> map_option (apfst ((#) u)) (parse_chars r)))
      else if unat c < 0x20 then None
      else map_option (apfst ((#) c)) (parse_chars cs))"

text \<open>A number literal: \<open>-? (0 | [1-9][0-9]*) (. [0-9]+)? ([eE] [+-]? [0-9]+)?\<close>\<close>

definition parse_fraction :: "ustring \<Rightarrow> (ustring \<times> ustring) option" where
  "parse_fraction s =
     (case s of
        c # r \<Rightarrow>
          if c = cu CHR ''.'' then
            (if takeWhile is_digit r = [] then None
             else Some (takeWhile is_digit r, dropWhile is_digit r))
          else Some ([], s)
      | [] \<Rightarrow> Some ([], s))"

definition parse_exponent :: "ustring \<Rightarrow> (int \<times> ustring) option" where
  "parse_exponent s =
     (case s of
        c # r \<Rightarrow>
          if c = cu CHR ''e'' \<or> c = cu CHR ''E'' then
            (let neg = (r \<noteq> [] \<and> hd r = cu CHR ''-'');
                 r' = (if r \<noteq> [] \<and> (hd r = cu CHR ''-'' \<or> hd r = cu CHR ''+'') then tl r else r)
             in if takeWhile is_digit r' = [] then None
                else Some ((if neg then - 1 else 1) * digits_val (takeWhile is_digit r'),
                           dropWhile is_digit r'))
          else Some (0, s)
      | [] \<Rightarrow> Some (0, s))"

definition pow10 :: "int \<Rightarrow> rat" where
  "pow10 e = (if e < 0 then 1 / 10 ^ nat (- e) else 10 ^ nat e)"

definition parse_number :: "ustring \<Rightarrow> (rat \<times> ustring) option" where
  "parse_number s =
     (let neg = (s \<noteq> [] \<and> hd s = cu CHR ''-'');
          s1 = (if neg then tl s else s);
          ds = takeWhile is_digit s1
      in if ds = [] \<or> (hd ds = cu CHR ''0'' \<and> length ds > 1) then None
         else
           (case parse_fraction (dropWhile is_digit s1) of
              None \<Rightarrow> None
            | Some (fs, s2) \<Rightarrow>
                (case parse_exponent s2 of
                   None \<Rightarrow> None
                 | Some (e, s3) \<Rightarrow>
                     Some ((if neg then - 1 else 1)
                           * (of_int (digits_val ds) + of_int (digits_val fs) / 10 ^ length fs)
                           * pow10 e, s3))))"

text \<open>A key is an array index when it is the decimal numeral, without a leading zero, of
  a number below \<open>2^32 - 1\<close>, which is 4294967295.  The engine enumerates the own properties
  of an object with the array indices first, in ascending order, and the other keys
  after them in the order of their creation.\<close>

definition array_index :: "ustring \<Rightarrow> int option" where
  "array_index k =
     (if k \<noteq> [] \<and> list_all is_digit k \<and> (hd k \<noteq> cu CHR ''0'' \<or> length k = 1)
         \<and> digits_val k < 4294967295
      then Some (digits_val k) else None)"

definition own_property_order :: "(ustring \<times> json) list \<Rightarrow> (ustring \<times> json) list" where
  "own_property_order ms =
     sort_key (\<lambda>p. the (array_index (fst p))) (filter (\<lambda>p. array_index (fst p) \<noteq> None) ms)
     @ filter (\<lambda>p. array_index (fst p) = None) ms"

text \<open>Building an object from its members in source order: a repeated key keeps its
  first position and takes the last value, as \<open>JSON.parse\<close> does.\<close>

definition build_obj :: "(ustring \<times> json) list \<Rightarrow> json" where
  "build_obj ms = JObj (own_property_order (foldl (\<lambda>acc (k, v). set_prop acc k v) [] ms))"

text \<open>
  The recursive-descent parser, on a text whose leading white space is gone.  It returns
  the value and the rest of the text.  The first argument bounds the depth of the
  recursion; \<open>JSON_parse\<close> below starts it above any depth its text can reach
  (\<open>fuel_stable\<close>, \<open>JSON_parse_fuel\<close>).
\<close>

fun parse_value :: "nat \<Rightarrow> ustring \<Rightarrow> (json \<times> ustring) option"
  and parse_elements :: "nat \<Rightarrow> ustring \<Rightarrow> (json list \<times> ustring) option"
  and parse_members :: "nat \<Rightarrow> ustring \<Rightarrow> ((ustring \<times> json) list \<times> ustring) option"
where
  "parse_value 0 s = None"
| "parse_value (Suc n) s =
     (case s of
        [] \<Rightarrow> None
      | c # r \<Rightarrow>
          if c = cu CHR ''{'' then
            (if skip_ws r \<noteq> [] \<and> hd (skip_ws r) = cu CHR ''}'' then Some (JObj [], tl (skip_ws r))
             else map_option (apfst build_obj) (parse_members n (skip_ws r)))
          else if c = cu CHR ''['' then
            (if skip_ws r \<noteq> [] \<and> hd (skip_ws r) = cu CHR '']'' then Some (JArr [], tl (skip_ws r))
             else map_option (apfst JArr) (parse_elements n (skip_ws r)))
          else if c = dquote then map_option (apfst JStr) (parse_chars r)
          else if take 4 s = units ''true'' then Some (JBool True, drop 4 s)
          else if take 5 s = units ''false'' then Some (JBool False, drop 5 s)
          else if take 4 s = units ''null'' then Some (JNull, drop 4 s)
          else map_option (apfst JNum) (parse_number s))"
| "parse_elements 0 s = None"
| "parse_elements (Suc n) s =
     (case parse_value n s of
        None \<Rightarrow> None
      | Some (v, r) \<Rightarrow>
          (case skip_ws r of
             [] \<Rightarrow> None
           | c # r' \<Rightarrow>
               if c = cu CHR '','' then
                 map_option (apfst ((#) v)) (parse_elements n (skip_ws r'))
               else if c = cu CHR '']'' then Some ([v], r')
               else None))"
| "parse_members 0 s = None"
| "parse_members (Suc n) s =
     (case s of
        [] \<Rightarrow> None
      | q # r \<Rightarrow>
          if q \<noteq> dquote then None
          else
            (case parse_chars r of
               None \<Rightarrow> None
             | Some (k, r1) \<Rightarrow>
                 (case skip_ws r1 of
                    [] \<Rightarrow> None
                  | c # r2 \<Rightarrow>
                      if c \<noteq> cu CHR '':'' then None
                      else
                        (case parse_value n (skip_ws r2) of
                           None \<Rightarrow> None
                         | Some (v, r3) \<Rightarrow>
                             (case skip_ws r3 of
                                [] \<Rightarrow> None
                              | d # r4 \<Rightarrow>
                                  if d = cu CHR '','' then
                                    map_option (apfst ((#) (k, v))) (parse_members n (skip_ws r4))
                                  else if d = cu CHR ''}'' then Some ([(k, v)], r4)
                                  else None)))))"

text \<open>\<open>JSON.parse(text)\<close>: one value, with white space allowed around it and nothing else;
  \<open>None\<close> is the \<open>SyntaxError\<close>.\<close>

definition JSON_parse :: "ustring \<Rightarrow> json option" where
  "JSON_parse text =
     (case parse_value (2 * length text + 2) (skip_ws text) of
        None \<Rightarrow> None
      | Some (v, r) \<Rightarrow> if skip_ws r = [] then Some v else None)"

section \<open>The extraction client's parser\<close>

datatype error =
    SyntaxError
  | TypeError
  | Error ustring

text \<open>
  \<^verbatim>\<open>
  function extractJson(text) {
    let clean = text.replace(/``````/g, '').trim();
    try { return JSON.parse(clean); } catch { }
    const first = clean.indexOf('{');
    const last = clean.lastIndexOf('}');
    if (first !== -1 && last !== -1) {
      return JSON.parse(clean.slice(first, last + 1));
    }
    throw new Error('Model response is not valid JSON');
  }
  \<close>
\<close>

definition clean_text :: "ustring \<Rightarrow> ustring" where
  "clean_text text = trim (strip_fences text)"

definition extractJson :: "ustring \<Rightarrow> error + json" where
  "extractJson text =
     (let clean = clean_text text in
      case JSON_parse clean of
        Some v \<Rightarrow> Inr v
      | None \<Rightarrow>
          (let first = indexOf clean (cu CHR ''{'');
               last = lastIndexOf clean (cu CHR ''}'')
           in if first \<noteq> - 1 \<and> last \<noteq> - 1 then
                (case JSON_parse (slice clean first (last + 1)) of
                   Some v \<Rightarrow> Inr v
                 | None \<Rightarrow> Inl SyntaxError)
              else Inl (Error (units ''Model response is not valid JSON''))))"

section \<open>Post-processing of the two extraction results\<close>

definition FIELD_LIST :: "ustring list" where
  "FIELD_LIST =
     [units ''ClientName'', units ''FundingAgency'', units ''BiddingSystem'', units ''NameOfWork'',
      units ''ProjectLocation'', units ''CompletionPeriod'', units ''EstimatedCost'',
      units ''TenderDocumentCost'', units ''EMD'', units ''ImportantDates'', units ''BidValidity'',
      units ''TenderSecurity'', units ''JointVenture'', units ''PowerOfAttorney'',
      units ''GroundsForBidRejection'', units ''EligibilityCriteria'', units ''SiteVisit'',
      units ''GeotechnicalReports'', units ''LandAvailability'', units ''OtherLandAvailability'']"

text \<open>
  \<^verbatim>\<open>for (const k of FIELD_LIST) { if (!(k in fieldsData)) fieldsData[k] = null; }\<close>

  On the properties of an object this is \<open>backfill_props\<close>.  \<open>k in v\<close> raises a
  \<open>TypeError\<close> when \<open>v\<close> is \<open>null\<close>, a boolean, a number or a string.  An array receives the
  keys as named properties beside its elements, which no serialisation of the array
  shows; its elements stay as they are.
\<close>

definition backfill_props :: "(ustring \<times> json) list \<Rightarrow> (ustring \<times> json) list" where
  "backfill_props ms =
     foldl (\<lambda>d k. if \<not> has_key d k then set_prop d k JNull else d) ms FIELD_LIST"

fun backfill :: "json \<Rightarrow> error + json" where
  "backfill (JObj ms) = Inr (JObj (backfill_props ms))"
| "backfill (JArr xs) = Inr (JArr xs)"
| "backfill v = Inl TypeError"

text \<open>The double nearest to a number is zero when the number is at most half the least
  positive double, \<open>2^-1074\<close>, in magnitude (the tie goes to the even neighbour, zero).\<close>

definition rounds_to_zero :: "rat \<Rightarrow> bool" where
  "rounds_to_zero r \<longleftrightarrow> \<bar>r\<bar> \<le> 1 / 2 ^ 1075"

text \<open>The truth value of a parsed value in a condition or under \<open>||\<close>.\<close>

fun truthy :: "json \<Rightarrow> bool" where
  "truthy JNull = False"
| "truthy (JBool b) = b"
| "truthy (JNum n) = (\<not> rounds_to_zero n)"
| "truthy (JStr s) = (s \<noteq> [])"
| "truthy (JArr xs) = True"
| "truthy (JObj ms) = True"

text \<open>\<open>v.k\<close> for the keys the sources read (\<open>submittals\<close>, \<open>item\<close>, \<open>page\<close>, \<open>reason\<close>, none of
  them inherited from a prototype): a \<open>TypeError\<close> on \<open>null\<close>, the own property of an object,
  \<open>undefined\<close> (\<open>None\<close>) on anything else.\<close>

fun read_prop :: "json \<Rightarrow> ustring \<Rightarrow> error + json option" where
  "read_prop JNull k = Inl TypeError"
| "read_prop (JObj ms) k = Inr (get_prop ms k)"
| "read_prop v k = Inr None"

text \<open>\<open>a || b\<close>, where \<open>a\<close> may be \<open>undefined\<close>\<close>

definition or_else :: "json option \<Rightarrow> json \<Rightarrow> json" where
  "or_else a b = (case a of None \<Rightarrow> b | Some v \<Rightarrow> if truthy v then v else b)"

text \<open>
  \<^verbatim>\<open>
  x => ({
    item: x.item || '',
    page: x.page == null ? null : x.page,
    reason: x.reason || ''
  })
  \<close>
\<close>

definition normalize_submittal :: "json \<Rightarrow> error + json" where
  "normalize_submittal x =
     (case read_prop x (units ''item'') of
        Inl e \<Rightarrow> Inl e
      | Inr item \<Rightarrow>
          (case read_prop x (units ''page'') of
             Inl e \<Rightarrow> Inl e
           | Inr page \<Rightarrow>
               (case read_prop x (units ''reason'') of
                  Inl e \<Rightarrow> Inl e
                | Inr reason \<Rightarrow>
                    Inr (JObj [(units ''item'', or_else item (JStr [])),
                               (units ''page'', (case page of None \<Rightarrow> JNull | Some v \<Rightarrow> v)),
                               (units ''reason'', or_else reason (JStr []))]))))"

text \<open>\<open>xs.map(f)\<close> where \<open>f\<close> may throw: the first exception ends the loop.\<close>

fun map_throwing :: "('a \<Rightarrow> error + 'b) \<Rightarrow> 'a list \<Rightarrow> error + 'b list" where
  "map_throwing f [] = Inr []"
| "map_throwing f (x # xs) =
     (case f x of
        Inl e \<Rightarrow> Inl e
      | Inr y \<Rightarrow> (case map_throwing f xs of Inl e \<Rightarrow> Inl e | Inr ys \<Rightarrow> Inr (y # ys)))"

text \<open>\<open>submittalsData.submittals || []\<close>\<close>

definition submittals_or_empty :: "json \<Rightarrow> error + json" where
  "submittals_or_empty submittalsData =
     (case read_prop submittalsData (units ''submittals'') of
        Inl e \<Rightarrow> Inl e
      | Inr s \<Rightarrow> Inr (or_else s (JArr [])))"

text \<open>
  The asynchronous variant:
  \<^verbatim>\<open>
  let submittals = submittalsData.submittals || [];
  submittals = submittals.map(x => ({ ... }));
  \<close>
  \<open>.map\<close> exists on arrays only; on any other value the call raises a \<open>TypeError\<close>.
\<close>

definition normalize_submittals :: "json \<Rightarrow> error + json list" where
  "normalize_submittals submittalsData =
     (case submittals_or_empty submittalsData of
        Inl e \<Rightarrow> Inl e
      | Inr (JArr xs) \<Rightarrow> map_throwing normalize_submittal xs
      | Inr v \<Rightarrow> Inl TypeError)"

section \<open>The chunkers\<close>

text \<open>\<open>txt.match(/[^.!?]+[.!?]+/g)\<close>: the matches from left to right, each a longest run of
  characters other than \<open>.\<close>, \<open>!\<close>, \<open>?\<close> followed by a longest run of these.  A run that no
  \<open>.\<close>, \<open>!\<close> or \<open>?\<close> follows gives no match.  The empty list stands for \<open>null\<close>.\<close>

definition is_end :: "code_unit \<Rightarrow> bool" where
  "is_end c \<longleftrightarrow> c \<in> set [cu CHR ''.'', cu CHR ''!'', cu CHR ''?'']"

function match_sentences :: "ustring \<Rightarrow> ustring list" where
  "match_sentences [] = []"
| "match_sentences (c # cs) =
     (if is_end c then match_sentences cs
      else if dropWhile (\<lambda>x. \<not> is_end x) cs = [] then []
      else (c # takeWhile (\<lambda>x. \<not> is_end x) cs
              @ takeWhile is_end (dropWhile (\<lambda>x. \<not> is_end x) cs))
           # match_sentences (dropWhile is_end (dropWhile (\<lambda>x. \<not> is_end x) cs)))"
  by pat_completeness auto
termination
  by (relation "measure length")
     (auto intro: le_imp_less_Suc le_trans [OF length_dropWhile_le length_dropWhile_le])

text \<open>\<open>txt.match(/[^.!?]+[.!?]+/g) || [txt]\<close>\<close>

definition sentences_of :: "ustring \<Rightarrow> ustring list" where
  "sentences_of txt = (if match_sentences txt = [] then [txt] else match_sentences txt)"

text \<open>\<open>w.slice(-Math.floor(ov / 6)).join(' ')\<close> on \<open>w = cur.split(' ')\<close>.  When \<open>ov < 6\<close> the
  index is \<open>-0\<close>, and \<open>slice(-0)\<close> is the whole array.\<close>

definition overlap_words :: "nat \<Rightarrow> ustring \<Rightarrow> ustring" where
  "overlap_words ov cur =
     join (slice_from (split cur (cu CHR '' '')) (- int (ov div 6))) (units '' '')"

text \<open>
  \<^verbatim>\<open>
  const smartChunks = (txt, max = 8000, ov = 300) => {
    if (txt.length <= max) return [txt];
    const s = txt.match(/[^.!?]+[.!?]+/g) || [txt];
    const out = []; let cur = '';
    for (const sent of s) {
      if (cur.length + sent.length > max && cur) {
        out.push(cur.trim());
        const w = cur.split(' ');
        cur = w.slice(-Math.floor(ov / 6)).join(' ') + ' ' + sent;
      } else cur += (cur ? ' ' : '') + sent.trim();
    }
    if (cur.trim()) out.push(cur.trim());
    return out;
  };
  \<close>
  The loop is \<open>smartChunks_loop\<close>, on the sentences left, with \<open>out\<close> and \<open>cur\<close> as state.
\<close>

fun smartChunks_loop ::
  "nat \<Rightarrow> nat \<Rightarrow> ustring list \<Rightarrow> ustring list \<Rightarrow> ustring \<Rightarrow> ustring list \<times> ustring" where
  "smartChunks_loop max' ov [] out cur = (out, cur)"
| "smartChunks_loop max' ov (sent # s) out cur =
     (if length cur + length sent > max' \<and> cur \<noteq> [] then
        smartChunks_loop max' ov s (out @ [trim cur]) (overlap_words ov cur @ units '' '' @ sent)
      else
        smartChunks_loop max' ov s out
          (cur @ (if cur \<noteq> [] then units '' '' else []) @ trim sent))"

definition smartChunks :: "ustring \<Rightarrow> nat \<Rightarrow> nat \<Rightarrow> ustring list" where
  "smartChunks txt max' ov =
     (if length txt \<le> max' then [txt]
      else
        (case smartChunks_loop max' ov (sentences_of txt) [] [] of
           (out, cur) \<Rightarrow> if trim cur \<noteq> [] then out @ [trim cur] else out))"

text \<open>
  \<^verbatim>\<open>
  function smartChunkText(text, maxChunkSize = 8000, overlapSize = 300) {
    if (text.length <= maxChunkSize) {
      return [text];
    }
    const sentences = text.match(/[^.!?]+[.!?]+/g) || [text];
    const chunks = [];
    let currentChunk = '';
    for (const sentence of sentences) {
      const cleanSentence = sentence.trim();
      if (currentChunk.length + cleanSentence.length > maxChunkSize && currentChunk.length > 0) {
        chunks.push(currentChunk.trim());
        const words = currentChunk.trim().split(' ');
        const overlapWords = words.slice(-Math.floor(overlapSize / 6));
        currentChunk = overlapWords.join(' ') + ' ' + cleanSentence;
      } else {
        currentChunk += (currentChunk ? ' ' : '') + cleanSentence;
      }
    }
    if (currentChunk.trim()) {
      chunks.push(currentChunk.trim());
    }
    return chunks.length > 0 ? chunks : [text];
  }
  \<close>
\<close>

fun smartChunkText_loop ::
  "nat \<Rightarrow> nat \<Rightarrow> ustring list \<Rightarrow> ustring list \<Rightarrow> ustring \<Rightarrow> ustring list \<times> ustring" where
  "smartChunkText_loop maxChunkSize overlapSize [] chunks currentChunk = (chunks, currentChunk)"
| "smartChunkText_loop maxChunkSize overlapSize (sentence # sentences) chunks currentChunk =
     (if length currentChunk + length (trim sentence) > maxChunkSize \<and> length currentChunk > 0 then
        smartChunkText_loop maxChunkSize overlapSize sentences
          (chunks @ [trim currentChunk])
          (overlap_words overlapSize (trim currentChunk) @ units '' '' @ trim sentence)
      else
        smartChunkText_loop maxChunkSize overlapSize sentences chunks
          (currentChunk @ (if currentChunk \<noteq> [] then units '' '' else []) @ trim sentence))"

definition smartChunkText :: "ustring \<Rightarrow> nat \<Rightarrow> nat \<Rightarrow> ustring list" where
  "smartChunkText text maxChunkSize overlapSize =
     (if length text \<le> maxChunkSize then [text]
      else
        (case smartChunkText_loop maxChunkSize overlapSize (sentences_of text) [] [] of
           (chunks, currentChunk) \<Rightarrow>
             (let chunks' = (if trim currentChunk \<noteq> [] then chunks @ [trim currentChunk]
                             else chunks)
              in if length chunks' > 0 then chunks' else [text])))"

section \<open>Requests, provider calls and the document store\<close>

text \<open>
  What lies outside the repository enters as data.  An uploaded file is its name and the
  outcome of \<open>pdf(buffer)\<close>: the extracted text, or the exception of the PDF library.  The
  prompt builders are string templates over the file name and the text; a prompt is kept
  as the template's name and its two holes.  The provider is a function from the prompt
  to the text of its response, or to the exception it raises.  Identifiers of stored
  documents are natural numbers, chosen by the store's driver.  The store's schema
  declares \<open>submittals\<close> as an array of subdocuments; what it makes of a value it is handed
  for that path is a function too (\<open>schema_cast\<close>): the array it stores, or the error with
  which it rejects the document or the update.  The other paths take what the code hands
  them (\<open>fields\<close> is \<open>Mixed\<close>, the rest are strings), and the connection to the store does
  not fail.
\<close>

record upload =
  originalname :: ustring
  parsed_text :: "error + ustring"

datatype prompt =
    BuildPrompt ustring ustring
  | SubmittalPrompt ustring ustring

type_synonym provider = "prompt \<Rightarrow> error + ustring"

type_synonym schema_cast = "json \<Rightarrow> error + json list"

text \<open>\<open>e.message\<close>; the wording an engine gives its own errors is not modelled.\<close>

fun message :: "error \<Rightarrow> ustring" where
  "message (Error m) = m"
| "message SyntaxError = units ''SyntaxError''"
| "message TypeError = units ''TypeError''"

record response =
  code :: nat
  body :: json

definition respond_error :: "nat \<Rightarrow> ustring \<Rightarrow> response" where
  "respond_error c m = \<lparr>code = c, body = JObj [(units ''error'', JStr m)]\<rparr>"

definition id_json :: "nat \<Rightarrow> json" where
  "id_json i = JNum (of_nat i)"

text \<open>What a handler or a background task does to the world, in order: a call of
  \<open>geminiModel.generateContent\<close> with a prompt, a \<open>setTimeout\<close> wait in milliseconds, the
  handing of a value for \<open>submittals\<close> to the store's schema (in \<open>new Contract({...})\<close> or in
  the last \<open>findByIdAndUpdate\<close>), the \<open>save()\<close> of a new document as stored, and a
  \<open>findByIdAndUpdate\<close> as applied.\<close>

datatype ('r, 'p) effect =
    Call prompt
  | Delay nat
  | Cast json
  | Save nat 'r
  | Update nat 'p

definition provider_events :: "('r, 'p) effect list \<Rightarrow> ('r, 'p) effect list" where
  "provider_events es = filter (\<lambda>e. case e of Call q \<Rightarrow> True | Delay d \<Rightarrow> True | _ \<Rightarrow> False) es"

definition saves :: "('r, 'p) effect list \<Rightarrow> ('r, 'p) effect list" where
  "saves es = filter (\<lambda>e. case e of Save i r \<Rightarrow> True | _ \<Rightarrow> False) es"

text \<open>\<open>const fieldsData = extractJson(fieldsResponse.response.text());\<close> and the back-fill loop\<close>

definition extract_fields :: "ustring \<Rightarrow> error + json" where
  "extract_fields fieldsResponse =
     (case extractJson fieldsResponse of Inl e \<Rightarrow> Inl e | Inr fieldsData \<Rightarrow> backfill fieldsData)"

subsection \<open>The synchronous combined variant\<close>

text \<open>A stored document.  The schema has \<open>pdfName\<close>, \<open>fields\<close> (\<open>Mixed\<close>), \<open>submittals\<close> (an array
  of subdocuments) and \<open>createdAt\<close>; the time stamp is not modelled.\<close>

record contract_sync =
  s_pdfName :: ustring
  s_fields :: json
  s_submittals :: "json list"

text \<open>
  \<^verbatim>\<open>
  app.post('/api/summarize', upload.single('pdf'), async (req, res) => {
    try {
      if (!req.file) return res.status(400).json({ error: 'No PDF uploaded' });
      const parsed = await pdf(req.file.buffer);
      const text = preprocess(parsed.text || '');
      if (!text) return res.status(400).json({ error: 'Empty/non-text PDF' });
      const pdfName = req.file.originalname;
      const submittalsResponse = await geminiModel.generateContent(
        submittalPrompt(pdfName, text), ...);
      await new Promise(res => setTimeout(res, 15000));
      const fieldsResponse= await geminiModel.generateContent(
        buildPrompt(pdfName, text), ...);
      const fieldsData = extractJson(fieldsResponse.response.text());
      for (const k of FIELD_LIST) { if (!(k in fieldsData)) fieldsData[k] = null; }
      const submittalsData = extractJson(submittalsResponse.response.text());
      const submittals = submittalsData.submittals || [];
      const doc = await new Contract({
        pdfName: req.file.originalname, fields: fieldsData, submittals: submittals
      }).save();
      return res.json({ success: true, _id: doc._id, pdfName: doc.pdfName,
        fields: doc.fields, submittals: doc.submittals });
    } catch (e) {
      return res.status(500).json({ error: e.message });
    }
  });
  \<close>
  The handler returns its response and the effects it had, in order.  The last step,
  from \<open>new Contract({...})\<close> on, is \<open>save_contract\<close>: \<open>save()\<close> is rejected when the schema
  rejects the submittals, and the response is made from the document as stored.
\<close>

definition save_contract ::
  "schema_cast \<Rightarrow> nat \<Rightarrow> ustring \<Rightarrow> json \<Rightarrow> json
     \<Rightarrow> response \<times> (contract_sync, unit) effect list" where
  "save_contract cast new_id name fieldsData submittals =
     (case cast submittals of
        Inl e \<Rightarrow> (respond_error 500 (message e), [Cast submittals])
      | Inr stored \<Rightarrow>
          (\<lparr>code = 200,
            body = JObj [(units ''success'', JBool True), (units ''_id'', id_json new_id),
                         (units ''pdfName'', JStr name), (units ''fields'', fieldsData),
                         (units ''submittals'', JArr stored)]\<rparr>,
           [Cast submittals,
            Save new_id \<lparr>s_pdfName = name, s_fields = fieldsData, s_submittals = stored\<rparr>]))"

definition finish_sync ::
  "schema_cast \<Rightarrow> nat \<Rightarrow> ustring \<Rightarrow> ustring \<Rightarrow> ustring
     \<Rightarrow> response \<times> (contract_sync, unit) effect list" where
  "finish_sync cast new_id name fieldsResponse submittalsResponse =
     (case extract_fields fieldsResponse of
        Inl e \<Rightarrow> (respond_error 500 (message e), [])
      | Inr fieldsData \<Rightarrow>
          (case extractJson submittalsResponse of
             Inl e \<Rightarrow> (respond_error 500 (message e), [])
           | Inr submittalsData \<Rightarrow>
               (case submittals_or_empty submittalsData of
                  Inl e \<Rightarrow> (respond_error 500 (message e), [])
                | Inr submittals \<Rightarrow> save_contract cast new_id name fieldsData submittals)))"

definition post_summarize_sync ::
  "provider \<Rightarrow> schema_cast \<Rightarrow> nat \<Rightarrow> upload option
     \<Rightarrow> response \<times> (contract_sync, unit) effect list" where
  "post_summarize_sync generateContent cast new_id file =
     (case file of
        None \<Rightarrow> (respond_error 400 (units ''No PDF uploaded''), [])
      | Some f \<Rightarrow>
          (case parsed_text f of
             Inl e \<Rightarrow> (respond_error 500 (message e), [])
           | Inr raw \<Rightarrow>
               (let text = preprocess raw in
                if text = [] then (respond_error 400 (units ''Empty/non-text PDF''), [])
                else
                  (case generateContent (SubmittalPrompt (originalname f) text) of
                     Inl e \<Rightarrow>
                       (respond_error 500 (message e),
                        [Call (SubmittalPrompt (originalname f) text)])
                   | Inr submittalsResponse \<Rightarrow>
                       (case generateContent (BuildPrompt (originalname f) text) of
                          Inl e \<Rightarrow>
                            (respond_error 500 (message e),
                             [Call (SubmittalPrompt (originalname f) text), Delay 15000,
                              Call (BuildPrompt (originalname f) text)])
                        | Inr fieldsResponse \<Rightarrow>
                            (case finish_sync cast new_id (originalname f) fieldsResponse
                                    submittalsResponse of
                               (res, es) \<Rightarrow>
                                 (res,
                                  [Call (SubmittalPrompt (originalname f) text), Delay 15000,
                                   Call (BuildPrompt (originalname f) text)] @ es)))))))"

subsection \<open>The asynchronous variant\<close>

datatype status = Pending | Processing | Completed | Failed

fun status_name :: "status \<Rightarrow> ustring" where
  "status_name Pending = units ''pending''"
| "status_name Processing = units ''processing''"
| "status_name Completed = units ''completed''"
| "status_name Failed = units ''failed''"

text \<open>A stored document; \<open>None\<close> is a path that is \<open>undefined\<close>.\<close>

record contract =
  c_pdfName :: ustring
  c_fields :: "json option"
  c_submittals :: "json list option"
  c_status :: status
  c_errorMessage :: "ustring option"

text \<open>The second argument of \<open>findByIdAndUpdate\<close>: the paths it sets.\<close>

record patch =
  p_fields :: "json option"
  p_submittals :: "json list option"
  p_status :: "status option"
  p_errorMessage :: "ustring option"

definition apply_patch :: "patch \<Rightarrow> contract \<Rightarrow> contract" where
  "apply_patch p r =
     r\<lparr>c_fields := (case p_fields p of None \<Rightarrow> c_fields r | Some v \<Rightarrow> Some v),
       c_submittals := (case p_submittals p of None \<Rightarrow> c_submittals r | Some v \<Rightarrow> Some v),
       c_status := (case p_status p of None \<Rightarrow> c_status r | Some v \<Rightarrow> v),
       c_errorMessage := (case p_errorMessage p of None \<Rightarrow> c_errorMessage r | Some v \<Rightarrow> Some v)\<rparr>"

definition set_status :: "status \<Rightarrow> patch" where
  "set_status st = \<lparr>p_fields = None, p_submittals = None, p_status = Some st,
                    p_errorMessage = None\<rparr>"

definition set_failed :: "ustring \<Rightarrow> patch" where
  "set_failed m = \<lparr>p_fields = None, p_submittals = None, p_status = Some Failed,
                   p_errorMessage = Some m\<rparr>"

definition set_completed :: "json \<Rightarrow> json list \<Rightarrow> patch" where
  "set_completed fieldsData submittals =
     \<lparr>p_fields = Some fieldsData, p_submittals = Some submittals, p_status = Some Completed,
      p_errorMessage = None\<rparr>"

text \<open>
  \<^verbatim>\<open>
  async function processContract(docId, pdfBuffer, pdfName) {
    try {
      await Contract.findByIdAndUpdate(docId, { status: 'processing' });
      const parsed = await pdf(pdfBuffer);
      const text = preprocess(parsed.text || '');
      if (!text) {
        await Contract.findByIdAndUpdate(docId, {
          status: 'failed', errorMessage: 'Empty or non-text PDF' });
        return;
      }
      // Process submittals first
      const submittalsResponse = await geminiModel.generateContent(
        submittalPrompt(pdfName, text), ...);
      // Wait before second call
      await new Promise(res => setTimeout(res, 15000));
      // Process fields
      const fieldsResponse = await geminiModel.generateContent(
        buildPrompt(pdfName, text), ...);
      const fieldsData = extractJson(fieldsResponse.response.text());
      for (const k of FIELD_LIST) { if (!(k in fieldsData)) fieldsData[k] = null; }
      const submittalsData = extractJson(submittalsResponse.response.text());
      let submittals = submittalsData.submittals || [];
      submittals = submittals.map(x => ({ ... }));
      await Contract.findByIdAndUpdate(docId, {
        fields: fieldsData, submittals: submittals, status: 'completed' });
    } catch (e) {
      await Contract.findByIdAndUpdate(docId, { status: 'failed', errorMessage: e.message });
    }
  }
  \<close>
  The task is the list of its effects, in order; \<open>parsed\<close> is the outcome of
  \<open>pdf(pdfBuffer)\<close>.  The last update is \<open>complete_contract\<close>: when the schema rejects the
  submittals, the update is not applied and its error is caught like any other.
\<close>

definition complete_contract ::
  "schema_cast \<Rightarrow> nat \<Rightarrow> json \<Rightarrow> json list \<Rightarrow> (contract, patch) effect list" where
  "complete_contract cast docId fieldsData submittals =
     Cast (JArr submittals) #
     (case cast (JArr submittals) of
        Inl e \<Rightarrow> [Update docId (set_failed (message e))]
      | Inr stored \<Rightarrow> [Update docId (set_completed fieldsData stored)])"

definition finish_async ::
  "schema_cast \<Rightarrow> nat \<Rightarrow> ustring \<Rightarrow> ustring \<Rightarrow> (contract, patch) effect list" where
  "finish_async cast docId fieldsResponse submittalsResponse =
     (case extract_fields fieldsResponse of
        Inl e \<Rightarrow> [Update docId (set_failed (message e))]
      | Inr fieldsData \<Rightarrow>
          (case extractJson submittalsResponse of
             Inl e \<Rightarrow> [Update docId (set_failed (message e))]
           | Inr submittalsData \<Rightarrow>
               (case normalize_submittals submittalsData of
                  Inl e \<Rightarrow> [Update docId (set_failed (message e))]
                | Inr submittals \<Rightarrow> complete_contract cast docId fieldsData submittals)))"

definition processContract ::
  "provider \<Rightarrow> schema_cast \<Rightarrow> nat \<Rightarrow> error + ustring \<Rightarrow> ustring
     \<Rightarrow> (contract, patch) effect list" where
  "processContract generateContent cast docId parsed name =
     Update docId (set_status Processing) #
     (case parsed of
        Inl e \<Rightarrow> [Update docId (set_failed (message e))]
      | Inr raw \<Rightarrow>
          (let text = preprocess raw in
           if text = [] then [Update docId (set_failed (units ''Empty or non-text PDF''))]
           else
             Call (SubmittalPrompt name text) #
             (case generateContent (SubmittalPrompt name text) of
                Inl e \<Rightarrow> [Update docId (set_failed (message e))]
              | Inr submittalsResponse \<Rightarrow>
                  Delay 15000 # Call (BuildPrompt name text) #
                  (case generateContent (BuildPrompt name text) of
                     Inl e \<Rightarrow> [Update docId (set_failed (message e))]
                   | Inr fieldsResponse \<Rightarrow>
                       finish_async cast docId fieldsResponse submittalsResponse))))"

text \<open>
  \<^verbatim>\<open>
  app.post('/api/summarize', upload.single('pdf'), async (req, res) => {
    try {
      if (!req.file) return res.status(400).json({ error: 'No PDF uploaded' });
      const pdfName = req.file.originalname;
      const pdfBuffer = req.file.buffer;
      const doc = await new Contract({ pdfName: pdfName, status: 'pending' }).save();
      processContract(doc._id, pdfBuffer, pdfName);
      return res.json({ success: true, _id: doc._id, pdfName: doc.pdfName,
        status: 'pending',
        message: 'Document uploaded successfully. Processing started.' });
    } catch (e) { ... }
  });
  \<close>
  The handler returns its response, its own effects, and the effects of the task it
  starts without waiting for it.  A new document has no \<open>fields\<close> and no \<open>errorMessage\<close>; its
  \<open>submittals\<close>, an array path of the schema, start as the empty array.
\<close>

definition new_contract :: "ustring \<Rightarrow> contract" where
  "new_contract name =
     \<lparr>c_pdfName = name, c_fields = None, c_submittals = Some [], c_status = Pending,
      c_errorMessage = None\<rparr>"

definition post_summarize_async ::
  "provider \<Rightarrow> schema_cast \<Rightarrow> nat \<Rightarrow> upload option \<Rightarrow>
     response \<times> (contract, patch) effect list \<times> (contract, patch) effect list" where
  "post_summarize_async generateContent cast new_id file =
     (case file of
        None \<Rightarrow> (respond_error 400 (units ''No PDF uploaded''), [], [])
      | Some f \<Rightarrow>
          (\<lparr>code = 200,
            body = JObj [(units ''success'', JBool True), (units ''_id'', id_json new_id),
                         (units ''pdfName'', JStr (originalname f)), (units ''status'', JStr (units ''pending'')),
                         (units ''message'',
                          JStr (units ''Document uploaded successfully. Processing started.''))]\<rparr>,
           [Save new_id (new_contract (originalname f))],
           processContract generateContent cast new_id (parsed_text f) (originalname f)))"

text \<open>
  \<^verbatim>\<open>
  app.get('/api/status/:id', async (req, res) => {
    const doc = await Contract.findById(req.params.id);
    if (!doc) return res.status(404).json({ error: "Not found" });
    res.json({
      success: true, _id: doc._id, pdfName: doc.pdfName, status: doc.status,
      errorMessage: doc.errorMessage || null,
      hasFields: !!doc.fields,
      hasSubmittals: doc.submittals && doc.submittals.length > 0
    });
  });
  \<close>
  \<open>doc.submittals && ...\<close> is \<open>undefined\<close> when \<open>doc.submittals\<close> is, and a property whose value
  is \<open>undefined\<close> is left out of the JSON of the response.
\<close>

definition hasFields :: "contract \<Rightarrow> bool" where
  "hasFields doc = (case c_fields doc of None \<Rightarrow> False | Some v \<Rightarrow> truthy v)"

definition hasSubmittals :: "contract \<Rightarrow> bool option" where
  "hasSubmittals doc = (case c_submittals doc of None \<Rightarrow> None | Some xs \<Rightarrow> Some (length xs > 0))"

definition get_status :: "(nat \<rightharpoonup> contract) \<Rightarrow> nat \<Rightarrow> response" where
  "get_status db i =
     (case db i of
        None \<Rightarrow> respond_error 404 (units ''Not found'')
      | Some doc \<Rightarrow>
          \<lparr>code = 200,
           body = JObj ([(units ''success'', JBool True), (units ''_id'', id_json i),
                         (units ''pdfName'', JStr (c_pdfName doc)),
                         (units ''status'', JStr (status_name (c_status doc))),
                         (units ''errorMessage'',
                          (case c_errorMessage doc of
                             None \<Rightarrow> JNull
                           | Some m \<Rightarrow> if m \<noteq> [] then JStr m else JNull)),
                         (units ''hasFields'', JBool (hasFields doc))]
                        @ (case hasSubmittals doc of
                             None \<Rightarrow> []
                           | Some b \<Rightarrow> [(units ''hasSubmittals'', JBool b)]))\<rparr>)"

subsection \<open>The asynchronous server as a transition system\<close>

text \<open>
  The state of the server is the store and, for each document whose background task is
  running, the effects the task has still to perform.  An upload stores the new document
  and starts its task; at any moment one of the running tasks performs its next effect.
  The read-only routes leave the state as it is.
\<close>

record server =
  store :: "nat \<rightharpoonup> contract"
  tasks :: "nat \<rightharpoonup> (contract, patch) effect list"

fun perform :: "(contract, patch) effect \<Rightarrow> (nat \<rightharpoonup> contract) \<Rightarrow> (nat \<rightharpoonup> contract)" where
  "perform (Call q) db = db"
| "perform (Delay d) db = db"
| "perform (Cast v) db = db"
| "perform (Save i r) db = db(i \<mapsto> r)"
| "perform (Update i p) db = (case db i of None \<Rightarrow> db | Some r \<Rightarrow> db(i \<mapsto> apply_patch p r))"

datatype action =
    Upload provider schema_cast nat "upload option"
  | Advance nat

text \<open>One step; \<open>None\<close> when the action cannot happen: the driver never hands out the
  identifier of a stored document again, and only a task with an effect left can advance.
  A request that is answered without starting a task (no file) adds none.\<close>

fun exec :: "action \<Rightarrow> server \<Rightarrow> server option" where
  "exec (Upload generateContent cast new_id file) s =
     (if new_id \<in> dom (store s) then None
      else
        (case post_summarize_async generateContent cast new_id file of
           (res, es, task) \<Rightarrow>
             Some \<lparr>store = fold perform es (store s),
                   tasks = (if task = [] then tasks s else (tasks s)(new_id \<mapsto> task))\<rparr>))"
| "exec (Advance docId) s =
     (case tasks s docId of
        None \<Rightarrow> None
      | Some [] \<Rightarrow> None
      | Some (e # es) \<Rightarrow> Some \<lparr>store = perform e (store s), tasks = (tasks s)(docId \<mapsto> es)\<rparr>)"

fun run :: "action list \<Rightarrow> server \<Rightarrow> server option" where
  "run [] s = Some s"
| "run (a # as) s = (case exec a s of None \<Rightarrow> None | Some s' \<Rightarrow> run as s')"

definition initial :: server where
  "initial = \<lparr>store = Map.empty, tasks = Map.empty\<rparr>"

text \<open>The order of the statuses: \<open>pending\<close>, then \<open>processing\<close>, then \<open>completed\<close> or \<open>failed\<close>.\<close>

fun next_status :: "status \<Rightarrow> status \<Rightarrow> bool" where
  "next_status Pending b = (b = Processing)"
| "next_status Processing b = (b = Completed \<or> b = Failed)"
| "next_status Completed b = False"
| "next_status Failed b = False"

text \<open>The statuses a task has still to write, in order, and whether they continue the
  order from a given status.\<close>

fun status_writes :: "(contract, patch) effect list \<Rightarrow> status list" where
  "status_writes [] = []"
| "status_writes (Update i p # es) =
     (case p_status p of None \<Rightarrow> status_writes es | Some st \<Rightarrow> st # status_writes es)"
| "status_writes (e # es) = status_writes es"

fun continues :: "status \<Rightarrow> status list \<Rightarrow> bool" where
  "continues st [] = True"
| "continues st (w # ws) = (next_status st w \<and> continues w ws)"

text \<open>A task of document \<open>d\<close> saves nothing and updates no document but \<open>d\<close>.\<close>

fun confined :: "nat \<Rightarrow> (contract, patch) effect list \<Rightarrow> bool" where
  "confined d [] = True"
| "confined d (Save i r # es) = False"
| "confined d (Update i p # es) = (i = d \<and> confined d es)"
| "confined d (e # es) = confined d es"

definition consistent :: "server \<Rightarrow> bool" where
  "consistent s \<longleftrightarrow>
     (\<forall>d es. tasks s d = Some es \<longrightarrow>
        confined d es \<and>
        (status_writes es \<noteq> [] \<longrightarrow>
           (\<exists>r. store s d = Some r \<and> continues (c_status r) (status_writes es))))"

section \<open>Observations\<close>

text \<open>The member \<open>k\<close> of a JSON body, \<open>None\<close> when the body has none.\<close>

fun member :: "json \<Rightarrow> ustring \<Rightarrow> json option" where
  "member (JObj ms) k = get_prop ms k"
| "member v k = None"

text \<open>A markdown fence around a text: \<open>```json\<close>, a line feed, the text, a line feed, \<open>```\<close>.\<close>

definition fenced :: "ustring \<Rightarrow> ustring" where
  "fenced s =
     replicate 3 backtick @ units ''json\<newline>'' @ s @ units ''\<newline>'' @ replicate 3 backtick"

text \<open>Two kinds of chunk.  A sentence chunk is one sentence of the text, trimmed.  A seeded
  chunk is what a chunker starts with after it has closed a chunk: the overlap words of
  the chunk just closed, a space and the next sentence, trimmed.  \<open>smartChunks\<close> takes the
  overlap words from the closed chunk before its \<open>trim\<close> and appends the sentence as it
  is; \<open>smartChunkText\<close> takes them from the trimmed chunk and appends the trimmed
  sentence.\<close>

definition sentence_chunk :: "ustring \<Rightarrow> ustring \<Rightarrow> bool" where
  "sentence_chunk txt c \<longleftrightarrow> (\<exists>sent. sent \<in> set (sentences_of txt) \<and> c = trim sent)"

definition seeded_chunk :: "ustring \<Rightarrow> nat \<Rightarrow> ustring list \<Rightarrow> ustring \<Rightarrow> bool" where
  "seeded_chunk txt ov chunks c \<longleftrightarrow>
     (\<exists>cur sent. trim cur \<in> set chunks \<and> sent \<in> set (sentences_of txt)
        \<and> c = trim (overlap_words ov cur @ units '' '' @ sent))"

definition seeded_chunk_text :: "ustring \<Rightarrow> nat \<Rightarrow> ustring list \<Rightarrow> ustring \<Rightarrow> bool" where
  "seeded_chunk_text txt ov chunks c \<longleftrightarrow>
     (\<exists>prev sent. prev \<in> set chunks \<and> sent \<in> set (sentences_of txt)
        \<and> c = trim (overlap_words ov prev @ units '' '' @ trim sent))"



text \<open>The code units a JSON text can begin with, white space apart: an opening brace,
  bracket or quote, a minus sign or a digit, or the first letter of \<open>true\<close>, \<open>false\<close> or
  \<open>null\<close>.\<close>

definition value_start :: "code_unit \<Rightarrow> bool" where
  \<open>value_start c \<longleftrightarrow> c \<in> set (units ''{["-0123456789tfn'')\<close>

text \<open>A schema for the examples: it stores an array as it is handed it and rejects any
  other value.\<close>

fun as_given :: schema_cast where
  "as_given (JArr xs) = Inr xs"
| "as_given v = Inl (Error (units ''CastError''))"

text \<open>A provider that answers the field prompt with a fenced object and the submittal
  prompt with one submittal that names its item only.\<close>

fun canned_provider :: provider where
  \<open>canned_provider (BuildPrompt name txt) = Inr (fenced (units ''{"ClientName":"Acme"}''))\<close>
| \<open>canned_provider (SubmittalPrompt name txt)
     = Inr (units ''{"submittals":[{"item":"Bid Security"}]}'')\<close>

section \<open>Code units of characters\<close>

text \<open>Different characters have different code units, so a comparison of two code
  units written as characters is the comparison of the characters.\<close>

lemma unat_cu: "unat (cu c) = of_char c"
proof -
  have small: "(of_char c :: nat) < 65536"
    using nat_of_char_less_256 [of c] by linarith
  have "cu c = of_nat (of_char c)"
    by (simp only: cu_def of_nat_of_char)
  then have "unat (cu c) = (of_char c :: nat) mod 65536"
    by (simp add: unat_of_nat)
  with small show ?thesis
    by simp
qed

lemma cu_eq [simp]: "cu a = cu b \<longleftrightarrow> a = b"
proof
  assume "cu a = cu b"
  then have "unat (cu a) = unat (cu b)"
    by simp
  then show "a = b"
    by (simp only: unat_cu of_char_eq_iff)
qed simp

lemma units_Nil [simp]: "units [] = []"
  by (simp add: units_def)

lemma units_Cons: "units (c # cs) = cu c # units cs"
  by (simp add: units_def)

lemma units_eq_Nil [simp]: "units s = [] \<longleftrightarrow> s = []"
  by (simp add: units_def)

lemma length_units [simp]: "length (units s) = length s"
  by (simp add: units_def)

lemma units_eq [simp]: "units a = units b \<longleftrightarrow> a = b"
proof -
  have "inj cu"
    by (rule injI) simp
  then show ?thesis
    unfolding units_def by (simp add: inj_map_eq_map)
qed

text \<open>\<open>split\<close> evaluated with one recursive call for each code unit.\<close>

lemma split_not_Nil: "split s sep \<noteq> []"
  by (induction s) auto

lemma split_code [code]:
  "split [] sep = [[]]"
  "split (c # cs) sep =
     (case split cs sep of
        [] \<Rightarrow> [[c]]
      | w # ws \<Rightarrow> if c = sep then [] # w # ws else (c # w) # ws)"
  using split_not_Nil [of cs sep] by (auto split: list.splits)

section \<open>The depth bound of the parser\<close>

text \<open>Every parser function consumes input, so the depth of the recursion is bounded
  by the length of the text, and above that bound the result is the same for every
  depth: \<open>JSON_parse\<close> never fails for want of depth.\<close>

lemma skip_ws_le: "length (skip_ws s) \<le> length s"
  unfolding skip_ws_def by (rule length_dropWhile_le)

lemma parse_chars_shorter: "parse_chars s = Some (k, r) \<Longrightarrow> length r < length s"
proof (induction s arbitrary: k r rule: parse_chars.induct)
  case 1
  then show ?case by simp
next
  case (2 c cs)
  show ?case
  proof (cases "c = dquote")
    case True
    with 2(4) show ?thesis by simp
  next
    case nq: False
    show ?thesis
    proof (cases "c = backslash")
      case True
      show ?thesis
      proof (cases cs)
        case Nil
        with nq True 2(4) show ?thesis by simp
      next
        case (Cons e t)
        show ?thesis
        proof (cases "e = cu CHR ''u''")
          case u: True
          from nq True Cons u 2(4) obtain h k' where h: "hex4 (take 4 t) = Some h"
            and p: "parse_chars (drop 4 t) = Some (k', r)"
            by (auto split: option.splits)
          from 2(1) [OF nq True Cons u h p] have "length r < length (drop 4 t)" .
          with Cons show ?thesis by simp
        next
          case nu: False
          from nq True Cons nu 2(4) obtain h k' where h: "unescape e = Some h"
            and p: "parse_chars t = Some (k', r)"
            by (auto split: option.splits)
          from 2(2) [OF nq True Cons nu h p] have "length r < length t" .
          with Cons show ?thesis by simp
        qed
      qed
    next
      case nb: False
      from nq nb 2(4) obtain k' where p: "parse_chars cs = Some (k', r)"
        and ctl: "\<not> unat c < 0x20"
        by (auto split: if_splits)
      from 2(3) [OF nq nb ctl p] show ?thesis by simp
    qed
  qed
qed

lemma parse_fraction_le: "parse_fraction s = Some (fs, r) \<Longrightarrow> length r \<le> length s"
  by (auto simp: parse_fraction_def split: list.splits if_splits
        intro: le_SucI length_dropWhile_le)

lemma parse_exponent_le: "parse_exponent s = Some (e, r) \<Longrightarrow> length r \<le> length s"
proof -
  assume a: "parse_exponent s = Some (e, r)"
  show ?thesis
  proof (cases s)
    case Nil
    with a show ?thesis by (simp add: parse_exponent_def)
  next
    case (Cons c t)
    show ?thesis
    proof (cases "c = cu CHR ''e'' \<or> c = cu CHR ''E''")
      case False
      with a Cons show ?thesis by (auto simp: parse_exponent_def)
    next
      case True
      let ?t' = "if t \<noteq> [] \<and> (hd t = cu CHR ''-'' \<or> hd t = cu CHR ''+'') then tl t else t"
      from a Cons True have "r = dropWhile is_digit ?t'"
        by (auto simp: parse_exponent_def Let_def split: if_splits)
      moreover have "length (dropWhile is_digit ?t') \<le> length ?t'"
        by (rule length_dropWhile_le)
      moreover have "length ?t' \<le> length t"
        by simp
      ultimately show ?thesis using Cons by simp
    qed
  qed
qed

lemma parse_number_shorter: "parse_number s = Some (x, r) \<Longrightarrow> length r < length s"
proof -
  assume a: "parse_number s = Some (x, r)"
  let ?s1 = "if s \<noteq> [] \<and> hd s = cu CHR ''-'' then tl s else s"
  let ?ds = "takeWhile is_digit ?s1"
  from a have ne: "?ds \<noteq> []"
    by (auto simp: parse_number_def Let_def split: if_splits)
  from a obtain fs s2 e where f: "parse_fraction (dropWhile is_digit ?s1) = Some (fs, s2)"
    and x: "parse_exponent s2 = Some (e, r)"
    by (auto simp: parse_number_def Let_def split: if_splits option.splits)
  have "length ?s1 = length ?ds + length (dropWhile is_digit ?s1)"
    by (metis length_append takeWhile_dropWhile_id)
  with ne have "length (dropWhile is_digit ?s1) < length ?s1"
    by simp
  moreover have "length ?s1 \<le> length s" by simp
  moreover note parse_fraction_le [OF f] parse_exponent_le [OF x]
  ultimately show ?thesis by linarith
qed


lemma parse_shorter:
  "(\<forall>s v r. parse_value n s = Some (v, r) \<longrightarrow> length r < length s)
   \<and> (\<forall>s vs r. parse_elements n s = Some (vs, r) \<longrightarrow> length r < length s)
   \<and> (\<forall>s ms r. parse_members n s = Some (ms, r) \<longrightarrow> length r < length s)"
proof (induction n)
  case 0
  then show ?case by simp
next
  case (Suc n)
  then have v: "\<And>s v r. parse_value n s = Some (v, r) \<Longrightarrow> length r < length s"
    and e: "\<And>s vs r. parse_elements n s = Some (vs, r) \<Longrightarrow> length r < length s"
    and m: "\<And>s ms r. parse_members n s = Some (ms, r) \<Longrightarrow> length r < length s"
    by blast+
  have pv: "length r < length s" if a: "parse_value (Suc n) s = Some (v, r)" for s v r
  proof (cases s)
    case Nil
    with a show ?thesis by simp
  next
    case (Cons c t)
    have t: "length (skip_ws t) \<le> length t" by (rule skip_ws_le)
    consider (obj) "c = cu CHR ''{''" | (arr) "c \<noteq> cu CHR ''{''" "c = cu CHR ''[''"
      | (str) "c \<noteq> cu CHR ''{''" "c \<noteq> cu CHR ''[''" "c = dquote"
      | (other) "c \<noteq> cu CHR ''{''" "c \<noteq> cu CHR ''[''" "c \<noteq> dquote"
      by blast
    then show ?thesis
    proof cases
      case obj
      show ?thesis
      proof (cases "skip_ws t \<noteq> [] \<and> hd (skip_ws t) = cu CHR ''}''")
        case True
        with a Cons obj have "r = tl (skip_ws t)" by simp
        with t Cons show ?thesis by simp
      next
        case False
        with a Cons obj obtain ms where "parse_members n (skip_ws t) = Some (ms, r)"
          by (auto split: if_splits)
        from m [OF this] t Cons show ?thesis by simp
      qed
    next
      case arr
      show ?thesis
      proof (cases "skip_ws t \<noteq> [] \<and> hd (skip_ws t) = cu CHR '']''")
        case True
        with a Cons arr have "r = tl (skip_ws t)" by simp
        with t Cons show ?thesis by simp
      next
        case False
        with a Cons arr obtain vs where "parse_elements n (skip_ws t) = Some (vs, r)"
          by (auto split: if_splits)
        from e [OF this] t Cons show ?thesis by simp
      qed
    next
      case str
      with a Cons obtain k where "parse_chars t = Some (k, r)"
        by auto
      from parse_chars_shorter [OF this] Cons show ?thesis by simp
    next
      case other
      with a Cons have "r = drop 4 s \<or> r = drop 5 s \<or> (\<exists>x. parse_number s = Some (x, r))"
        by (auto split: if_splits)
      then show ?thesis
      proof (elim disjE exE)
        fix x assume "parse_number s = Some (x, r)"
        then show ?thesis by (rule parse_number_shorter)
      qed (use Cons in auto)
    qed
  qed
  have pe: "length r < length s" if a: "parse_elements (Suc n) s = Some (vs, r)" for s vs r
  proof -
    from a obtain x r1 where x: "parse_value n s = Some (x, r1)"
      by (auto split: option.splits)
    from v [OF x] have r1: "length r1 < length s" .
    have w: "length (skip_ws r1) \<le> length r1" by (rule skip_ws_le)
    from a x obtain c r2 where c: "skip_ws r1 = c # r2"
      by (auto split: list.splits)
    show ?thesis
    proof (cases "c = cu CHR '',''")
      case True
      with a x c obtain vs' where "parse_elements n (skip_ws r2) = Some (vs', r)"
        by auto
      from e [OF this] skip_ws_le [of r2] c w r1 show ?thesis by simp
    next
      case False
      with a x c have "r = r2" by (auto split: if_splits)
      with c w r1 show ?thesis by simp
    qed
  qed
  have pm: "length r < length s" if a: "parse_members (Suc n) s = Some (ms, r)" for s ms r
  proof -
    from a obtain q t where s: "s = q # t" and q: "q = dquote"
      by (cases s) (auto split: if_splits)
    from a s q obtain k r1 where k: "parse_chars t = Some (k, r1)"
      by (auto split: option.splits)
    from parse_chars_shorter [OF k] have r1: "length r1 < length t" .
    from a s q k obtain c r2 where c: "skip_ws r1 = c # r2" and colon: "c = cu CHR '':''"
      by (auto split: list.splits if_splits)
    from a s q k c colon obtain x r3 where x: "parse_value n (skip_ws r2) = Some (x, r3)"
      by (auto split: option.splits)
    from v [OF x] have r3: "length r3 < length (skip_ws r2)" .
    from a s q k c colon x obtain d r4 where d: "skip_ws r3 = d # r4"
      by (auto split: list.splits)
    have chain: "length r4 < length s"
      using d skip_ws_le [of r3] r3 skip_ws_le [of r2] c skip_ws_le [of r1] r1 s
      by simp
    show ?thesis
    proof (cases "d = cu CHR '',''")
      case True
      with a s q k c colon x d obtain ms' where "parse_members n (skip_ws r4) = Some (ms', r)"
        by auto
      from m [OF this] skip_ws_le [of r4] chain show ?thesis by simp
    next
      case False
      with a s q k c colon x d have "r = r4" by (auto split: if_splits)
      with chain show ?thesis by simp
    qed
  qed
  from pv pe pm show ?case by blast
qed


lemma parse_value_shorter: "parse_value n s = Some (v, r) \<Longrightarrow> length r < length s"
  using parse_shorter by blast

lemma fuel_stable:
  "(\<forall>s m. 2 * length s < n \<longrightarrow> 2 * length s < m \<longrightarrow> parse_value n s = parse_value m s)
   \<and> (\<forall>s m. 2 * length s + 1 < n \<longrightarrow> 2 * length s + 1 < m
          \<longrightarrow> parse_elements n s = parse_elements m s)
   \<and> (\<forall>s m. 2 * length s < n \<longrightarrow> 2 * length s < m \<longrightarrow> parse_members n s = parse_members m s)"
proof (induction n)
  case 0
  then show ?case by simp
next
  case (Suc n)
  then have v: "\<And>s m. 2 * length s < n \<Longrightarrow> 2 * length s < m
                  \<Longrightarrow> parse_value n s = parse_value m s"
    and e: "\<And>s m. 2 * length s + 1 < n \<Longrightarrow> 2 * length s + 1 < m
                  \<Longrightarrow> parse_elements n s = parse_elements m s"
    and m: "\<And>s m. 2 * length s < n \<Longrightarrow> 2 * length s < m
                  \<Longrightarrow> parse_members n s = parse_members m s"
    by blast+
  have pv: "parse_value (Suc n) s = parse_value k s"
    if b: "2 * length s < Suc n" "2 * length s < k" for s k
  proof (cases s)
    case Nil
    with b show ?thesis by (cases k) auto
  next
    case (Cons c t)
    from b obtain k' where k: "k = Suc k'" by (cases k) auto
    have t: "length (skip_ws t) \<le> length t" by (rule skip_ws_le)
    with b Cons k have l: "2 * length (skip_ws t) + 1 < n" "2 * length (skip_ws t) + 1 < k'"
      by simp_all
    have A: "parse_elements n (skip_ws t) = parse_elements k' (skip_ws t)"
      by (rule e) (rule l)+
    from l have "2 * length (skip_ws t) < n" "2 * length (skip_ws t) < k'"
      by simp_all
    then have B: "parse_members n (skip_ws t) = parse_members k' (skip_ws t)"
      by (rule m)
    show ?thesis
      unfolding Cons k parse_value.simps list.case A B ..
  qed
  have pe: "parse_elements (Suc n) s = parse_elements k s"
    if b: "2 * length s + 1 < Suc n" "2 * length s + 1 < k" for s k
  proof -
    from b obtain k' where k: "k = Suc k'" by (cases k) auto
    from b k have "2 * length s < n" "2 * length s < k'"
      by simp_all
    then have a: "parse_value n s = parse_value k' s"
      by (rule v)
    show ?thesis
    proof (cases "parse_value k' s")
      case None
      with a k show ?thesis by simp
    next
      case (Some p)
      obtain x r1 where p: "p = (x, r1)" by (cases p)
      from Some p have r1: "length r1 < length s" by (auto dest: parse_value_shorter)
      show ?thesis
      proof (cases "skip_ws r1")
        case Nil
        with a Some p k show ?thesis by simp
      next
        case (Cons c r2)
        have "length (skip_ws r2) \<le> length r2" by (rule skip_ws_le)
        moreover from Cons have "length r2 < length (skip_ws r1)" by simp
        moreover have "length (skip_ws r1) \<le> length r1" by (rule skip_ws_le)
        ultimately have "2 * length (skip_ws r2) + 1 < n" "2 * length (skip_ws r2) + 1 < k'"
          using r1 b k by simp_all
        then have "parse_elements n (skip_ws r2) = parse_elements k' (skip_ws r2)"
          by (rule e)
        with a Some p Cons k show ?thesis by simp
      qed
    qed
  qed
  have pm: "parse_members (Suc n) s = parse_members k s"
    if b: "2 * length s < Suc n" "2 * length s < k" for s k
  proof (cases s)
    case Nil
    with b show ?thesis by (cases k) auto
  next
    case s: (Cons q t)
    from b s obtain k' where k: "k = Suc k'" by (cases k) auto
    show ?thesis
    proof (cases "parse_chars t")
      case None
      with s k show ?thesis by simp
    next
      case (Some p)
      obtain key r1 where p: "p = (key, r1)" by (cases p)
      from Some p have r1: "length r1 < length t" by (auto dest: parse_chars_shorter)
      show ?thesis
      proof (cases "skip_ws r1")
        case Nil
        with s k Some p show ?thesis by simp
      next
        case c: (Cons c r2)
        have "length (skip_ws r2) \<le> length r2" by (rule skip_ws_le)
        moreover from c have "length r2 < length (skip_ws r1)" by simp
        moreover have "length (skip_ws r1) \<le> length r1" by (rule skip_ws_le)
        ultimately have l2: "length (skip_ws r2) + 2 < length s"
          using r1 s by simp
        with b k have "2 * length (skip_ws r2) < n" "2 * length (skip_ws r2) < k'"
          by simp_all
        then have a: "parse_value n (skip_ws r2) = parse_value k' (skip_ws r2)"
          by (rule v)
        show ?thesis
        proof (cases "parse_value k' (skip_ws r2)")
          case None
          with a s k Some p c show ?thesis by simp
        next
          case x: (Some px)
          obtain x r3 where px: "px = (x, r3)" by (cases px)
          from x px have r3: "length r3 < length (skip_ws r2)"
            by (auto dest: parse_value_shorter)
          show ?thesis
          proof (cases "skip_ws r3")
            case Nil
            with a x px s k Some p c show ?thesis by simp
          next
            case d: (Cons d r4)
            have "length (skip_ws r4) \<le> length r4" by (rule skip_ws_le)
            moreover from d have "length r4 < length (skip_ws r3)" by simp
            moreover have "length (skip_ws r3) \<le> length r3" by (rule skip_ws_le)
            ultimately have "2 * length (skip_ws r4) < n" "2 * length (skip_ws r4) < k'"
              using r3 l2 b k by simp_all
            then have "parse_members n (skip_ws r4) = parse_members k' (skip_ws r4)"
              by (rule m)
            with a x px d s k Some p c show ?thesis by simp
          qed
        qed
      qed
    qed
  qed
  from pv pe pm show ?case by blast
qed

lemma JSON_parse_fuel:
  assumes "2 * length t + 2 \<le> n"
  shows "JSON_parse t
           = (case parse_value n (skip_ws t) of
                None \<Rightarrow> None
              | Some (v, r) \<Rightarrow> if skip_ws r = [] then Some v else None)"
proof -
  have "length (skip_ws t) \<le> length t" by (rule skip_ws_le)
  with assms have "2 * length (skip_ws t) < 2 * length t + 2" "2 * length (skip_ws t) < n"
    by simp_all
  then have "parse_value (2 * length t + 2) (skip_ws t) = parse_value n (skip_ws t)"
    using fuel_stable by blast
  then show ?thesis
    by (simp add: JSON_parse_def)
qed

text \<open>The parser on some texts: an escape for a code unit above \<open>0xFF\<close>, array indices
  among the keys, a repeated key, numbers, and texts that are not JSON.\<close>

lemma JSON_parse_examples:
  \<open>JSON_parse (units ''{"EstimatedCost":"'' @ [backslash] @ units ''u20b9 5 lakh"}'')
     = Some (JObj [(units ''EstimatedCost'', JStr (0x20B9 # units '' 5 lakh''))])\<close>
  \<open>JSON_parse (units ''{"b":1,"10":2,"2":3,"b":4,"01":5}'')
     = Some (JObj [(units ''2'', JNum 3), (units ''10'', JNum 2), (units ''b'', JNum 4),
                   (units ''01'', JNum 5)])\<close>
  \<open>JSON_parse (units '' [1.5e2, -0.25, true, null, "x"] '')
     = Some (JArr [JNum 150, JNum (- 1 / 4), JBool True, JNull, JStr (units ''x'')])\<close>
  \<open>JSON_parse (units ''[1,]'') = None\<close>
  \<open>JSON_parse (units ''{"a":01}'') = None\<close>
  \<open>JSON_parse (units ''{} {}'') = None\<close>
  by code_simp+

lemma truthy_examples:
  "\<not> truthy (JNum (1 / 10 ^ 400))" "truthy (JNum (5 / 10 ^ 324))" "\<not> truthy (JNum 0)"
  by (simp_all add: rounds_to_zero_def)

section \<open>Chunking a short text\<close>

text \<open>
  C4.  A text no longer than the maximum chunk size comes back as the one chunk it is:
  both chunkers return the single-element list holding the text unchanged.
\<close>

theorem chunk_short_text:
  "length T \<le> n \<Longrightarrow> smartChunks T n ov = [T] \<and> smartChunkText T n ov = [T]"
  by (simp add: smartChunks_def smartChunkText_def)

theorem chunk_short_text_witness:
  "length (units ''Bids close on 1 May. Late bids are rejected'') \<le> (8000::nat)
   \<and> smartChunks (units ''Bids close on 1 May. Late bids are rejected'') 8000 300
       = [units ''Bids close on 1 May. Late bids are rejected'']
   \<and> smartChunkText (units ''Bids close on 1 May. Late bids are rejected'') 8000 300
       = [units ''Bids close on 1 May. Late bids are rejected'']"
  using chunk_short_text [of "units ''Bids close on 1 May. Late bids are rejected''" 8000 300]
  by simp

section \<open>The status poll\<close>

text \<open>
  C10.  For a stored document the status route reports \<open>hasSubmittals\<close> as true exactly
  when the document has a submittals array and the array is not empty.  A document that
  completed with an empty submittals list reports \<open>hasSubmittals\<close> false, and a document
  whose \<open>fields\<close> is an object, whatever it holds, reports \<open>hasFields\<close> true.
\<close>

theorem status_poll_flags:
  assumes "db i = Some doc"
  shows "(member (body (get_status db i)) (units ''hasSubmittals'') = Some (JBool True)
            \<longleftrightarrow> (\<exists>xs. c_submittals doc = Some xs \<and> xs \<noteq> []))
         \<and> (c_status doc = Completed \<and> c_submittals doc = Some []
              \<longrightarrow> member (body (get_status db i)) (units ''hasSubmittals'') = Some (JBool False))
         \<and> ((\<exists>ms. c_fields doc = Some (JObj ms))
              \<longrightarrow> member (body (get_status db i)) (units ''hasFields'') = Some (JBool True))"
  using assms
  by (auto simp: get_status_def get_prop_def hasSubmittals_def hasFields_def
           split: option.splits)

theorem status_poll_flags_witness:
  "[7 \<mapsto> \<lparr>c_pdfName = units ''t.pdf'', c_fields = Some (JObj []), c_submittals = Some [],
            c_status = Completed, c_errorMessage = None\<rparr>] (7::nat)
     = Some \<lparr>c_pdfName = units ''t.pdf'', c_fields = Some (JObj []), c_submittals = Some [],
             c_status = Completed, c_errorMessage = None\<rparr>
   \<and> member (body (get_status
         [7 \<mapsto> \<lparr>c_pdfName = units ''t.pdf'', c_fields = Some (JObj []), c_submittals = Some [],
                 c_status = Completed, c_errorMessage = None\<rparr>] 7)) (units ''hasSubmittals'')
       = Some (JBool False)
   \<and> member (body (get_status
         [7 \<mapsto> \<lparr>c_pdfName = units ''t.pdf'', c_fields = Some (JObj []), c_submittals = Some [],
                 c_status = Completed, c_errorMessage = None\<rparr>] 7)) (units ''hasFields'')
       = Some (JBool True)"
  using status_poll_flags [of "[7 \<mapsto> \<lparr>c_pdfName = units ''t.pdf'', c_fields = Some (JObj []),
            c_submittals = Some [], c_status = Completed, c_errorMessage = None\<rparr>]" 7
          "\<lparr>c_pdfName = units ''t.pdf'', c_fields = Some (JObj []), c_submittals = Some [],
            c_status = Completed, c_errorMessage = None\<rparr>"]
  by simp

section \<open>An upload without text\<close>

lemma preprocess_blank: "\<forall>c \<in> set raw. is_space c \<Longrightarrow> preprocess raw = []"
proof (cases raw)
  case Nil
  then show ?thesis by (simp add: preprocess_def trim_def)
next
  case (Cons c cs)
  assume blank: "\<forall>c \<in> set raw. is_space c"
  have rest: "dropWhile is_space cs = []"
    using blank Cons by simp
  have "collapse_spaces raw = cu CHR '' '' # collapse_spaces (dropWhile is_space cs)"
    using blank Cons by simp
  also have "\<dots> = [cu CHR '' '']"
    by (simp only: rest collapse_spaces.simps)
  finally show ?thesis
    by (simp add: preprocess_def trim_def is_space_def cu_def)
qed

text \<open>
  C7, as the code has it.  When the text extracted from the upload is empty or white
  space only, the synchronous handler answers 400 (\<open>Empty/non-text PDF\<close>) with no effect
  at all: no document is saved and the provider is not called.  The asynchronous handler
  has not looked at the text when it answers: it saves the pending document and answers
  200; its background task then sets the status to \<open>processing\<close> and to \<open>failed\<close> with the
  message \<open>Empty or non-text PDF\<close>, and does not call the provider either.
\<close>

theorem empty_pdf_outcome:
  assumes "\<forall>c \<in> set raw. is_space c"
  shows "post_summarize_sync generateContent cast new_id
           (Some \<lparr>originalname = name, parsed_text = Inr raw\<rparr>)
         = (respond_error 400 (units ''Empty/non-text PDF''), [])
       \<and> (\<exists>res. post_summarize_async generateContent cast new_id
                  (Some \<lparr>originalname = name, parsed_text = Inr raw\<rparr>)
              = (res, [Save new_id (new_contract name)],
                 [Update new_id (set_status Processing),
                  Update new_id (set_failed (units ''Empty or non-text PDF''))])
              \<and> code res = 200)"
  using preprocess_blank [OF assms]
  by (simp add: post_summarize_sync_def post_summarize_async_def processContract_def)

theorem empty_pdf_outcome_witness:
  "post_summarize_sync canned_provider as_given 7
      (Some \<lparr>originalname = units ''t.pdf'', parsed_text = Inr (units ''   '')\<rparr>)
     = (\<lparr>code = 400, body = JObj [(units ''error'', JStr (units ''Empty/non-text PDF''))]\<rparr>, [])
   \<and> snd (snd (post_summarize_async canned_provider as_given 7
      (Some \<lparr>originalname = units ''t.pdf'', parsed_text = Inr (units ''   '')\<rparr>)))
     = [Update 7 (set_status Processing), Update 7 (set_failed (units ''Empty or non-text PDF''))]"
proof -
  have blank: "\<forall>c \<in> set (units ''   ''). is_space c"
    by (simp add: is_space_def units_def cu_def)
  from empty_pdf_outcome [OF blank, of canned_provider as_given 7 "units ''t.pdf''"] show ?thesis
    by (auto simp: respond_error_def)
qed

text \<open>The claim as stated fails on the asynchronous handler: for a blank text the answer
  is 200 and a document is saved.\<close>

theorem empty_pdf_async_counterexample:
  "code (fst (post_summarize_async canned_provider as_given 7
            (Some \<lparr>originalname = units ''t.pdf'', parsed_text = Inr (units ''   '')\<rparr>))) = 200
   \<and> fst (snd (post_summarize_async canned_provider as_given 7
            (Some \<lparr>originalname = units ''t.pdf'', parsed_text = Inr (units ''   '')\<rparr>)))
       = [Save 7 \<lparr>c_pdfName = units ''t.pdf'', c_fields = None, c_submittals = Some [],
                  c_status = Pending, c_errorMessage = None\<rparr>]"
  by (simp add: post_summarize_async_def new_contract_def)

section \<open>The order of the two provider calls\<close>

text \<open>
  C2, as the code has it.  When the upload has text, the provider is called with the
  submittal prompt first.  If that call fails there is no other; otherwise a wait of
  15000 milliseconds follows and then the call with the field prompt.  This holds for
  the synchronous handler and for the background task alike.
\<close>

theorem provider_call_order:
  assumes "preprocess raw \<noteq> []"
  shows "provider_events (snd (post_summarize_sync generateContent cast new_id
             (Some \<lparr>originalname = name, parsed_text = Inr raw\<rparr>)))
         = (case generateContent (SubmittalPrompt name (preprocess raw)) of
              Inl e \<Rightarrow> [Call (SubmittalPrompt name (preprocess raw))]
            | Inr r \<Rightarrow> [Call (SubmittalPrompt name (preprocess raw)), Delay 15000,
                        Call (BuildPrompt name (preprocess raw))])
       \<and> provider_events (processContract generateContent cast docId (Inr raw) name)
         = (case generateContent (SubmittalPrompt name (preprocess raw)) of
              Inl e \<Rightarrow> [Call (SubmittalPrompt name (preprocess raw))]
            | Inr r \<Rightarrow> [Call (SubmittalPrompt name (preprocess raw)), Delay 15000,
                        Call (BuildPrompt name (preprocess raw))])"
  using assms
  by (auto simp: post_summarize_sync_def processContract_def provider_events_def
        finish_sync_def finish_async_def save_contract_def complete_contract_def Let_def
        split: sum.splits prod.splits)

lemma preprocess_sample: "preprocess (units '' Tender  text. '') = units ''Tender text.''"
  by code_simp

theorem provider_call_order_witness:
  "preprocess (units '' Tender  text. '') \<noteq> []
   \<and> provider_events (processContract canned_provider as_given 7 (Inr (units '' Tender  text. '')) (units ''t.pdf''))
       = [Call (SubmittalPrompt (units ''t.pdf'') (units ''Tender text.'')), Delay 15000,
          Call (BuildPrompt (units ''t.pdf'') (units ''Tender text.''))]"
  using provider_call_order [of "units '' Tender  text. ''" canned_provider as_given 7
          "units ''t.pdf''" 7]
  by (simp add: preprocess_sample)

text \<open>The claim as stated, fields first and submittals second, fails: the first provider
  event of the synchronous handler is the call with the submittal prompt, the last one
  the call with the field prompt.\<close>

theorem fields_first_counterexample:
  "hd (provider_events (snd (post_summarize_sync canned_provider as_given 7
          (Some \<lparr>originalname = units ''t.pdf'', parsed_text = Inr (units '' Tender  text. '')\<rparr>))))
     = Call (SubmittalPrompt (units ''t.pdf'') (units ''Tender text.''))
   \<and> last (provider_events (snd (post_summarize_sync canned_provider as_given 7
          (Some \<lparr>originalname = units ''t.pdf'', parsed_text = Inr (units '' Tender  text. '')\<rparr>))))
     = Call (BuildPrompt (units ''t.pdf'') (units ''Tender text.''))"
  by code_simp

section \<open>The status of a document only moves forward\<close>

lemma processContract_confined: "confined d (processContract gc cast d parsed name)"
  by (auto simp: processContract_def finish_async_def complete_contract_def Let_def
        split: sum.splits json.splits)

lemma processContract_writes:
  "continues Pending (status_writes (processContract gc cast d parsed name))"
  by (auto simp: processContract_def finish_async_def complete_contract_def Let_def
        set_status_def set_failed_def set_completed_def split: sum.splits json.splits)

lemma consistent_initial: "consistent initial"
  by (simp add: consistent_def initial_def)

lemma exec_consistent:
  assumes "consistent s" and "exec a s = Some s'"
  shows "consistent s'"
proof (cases a)
  case (Upload gc cast new_id upl)
  with assms(2) have fresh: "store s new_id = None"
    by (auto split: if_splits)
  show ?thesis
  proof (cases upl)
    case None
    with Upload assms show ?thesis
      by (auto simp: consistent_def post_summarize_async_def split: if_splits)
  next
    case (Some f)
    have "processContract gc cast new_id (parsed_text f) (originalname f) \<noteq> []"
      by (simp add: processContract_def)
    with Some Upload assms(2) fresh
    have s': "s' = \<lparr>store = (store s)(new_id \<mapsto> new_contract (originalname f)),
        tasks = (tasks s)(new_id \<mapsto>
                  processContract gc cast new_id (parsed_text f) (originalname f))\<rparr>"
      by (auto simp: post_summarize_async_def split: if_splits)
    show ?thesis
      unfolding consistent_def
    proof (intro allI impI)
      fix d es assume t: "tasks s' d = Some es"
      show "confined d es \<and> (status_writes es \<noteq> [] \<longrightarrow>
           (\<exists>r. store s' d = Some r \<and> continues (c_status r) (status_writes es)))"
      proof (cases "d = new_id")
        case True
        with t s' show ?thesis
          using processContract_confined processContract_writes
          by (auto simp: new_contract_def)
      next
        case False
        with t s' have "tasks s d = Some es" by simp
        with assms(1) have "confined d es \<and> (status_writes es \<noteq> [] \<longrightarrow>
           (\<exists>r. store s d = Some r \<and> continues (c_status r) (status_writes es)))"
          by (simp add: consistent_def)
        with False s' show ?thesis by simp
      qed
    qed
  qed
next
  case (Advance k)
  with assms(2) obtain e es where tk: "tasks s k = Some (e # es)"
    and s': "s' = \<lparr>store = perform e (store s), tasks = (tasks s)(k \<mapsto> es)\<rparr>"
    by (auto split: option.splits list.splits)
  from assms(1) tk have ck: "confined k (e # es)"
    and wk: "status_writes (e # es) \<noteq> [] \<longrightarrow>
           (\<exists>r. store s k = Some r \<and> continues (c_status r) (status_writes (e # es)))"
    by (auto simp: consistent_def)
  show ?thesis
    unfolding consistent_def
  proof (intro allI impI)
    fix d ds assume t: "tasks s' d = Some ds"
    show "confined d ds \<and> (status_writes ds \<noteq> [] \<longrightarrow>
           (\<exists>r. store s' d = Some r \<and> continues (c_status r) (status_writes ds)))"
    proof (cases "d = k")
      case True
      with t s' have ds: "ds = es" by simp
      show ?thesis
      proof (cases e)
        case (Update i p)
        with ck have ik: "i = k" by simp
        from ck Update have c: "confined k es" by simp
        show ?thesis
        proof (cases "p_status p")
          case None
          with Update wk ik s' True ds c show ?thesis
            by (auto simp: apply_patch_def)
        next
          case (Some st)
          with Update wk obtain r where r: "store s k = Some r"
            and n: "next_status (c_status r) st" and cs: "continues st (status_writes es)"
            by auto
          with Update ik s' True ds c Some show ?thesis
            by (auto simp: apply_patch_def)
        qed
      qed (use ck wk s' True ds in auto)
    next
      case False
      with t s' have td: "tasks s d = Some ds" by simp
      with assms(1) have cd: "confined d ds" and wd: "status_writes ds \<noteq> [] \<longrightarrow>
           (\<exists>r. store s d = Some r \<and> continues (c_status r) (status_writes ds))"
        by (auto simp: consistent_def)
      have "store s' d = store s d"
      proof (cases e)
        case (Update i p)
        with ck have "i = k" by simp
        with Update s' False show ?thesis by (auto split: option.splits)
      qed (use ck s' in auto)
      with cd wd show ?thesis by simp
    qed
  qed
qed

lemma run_consistent: "consistent s \<Longrightarrow> run acts s = Some s' \<Longrightarrow> consistent s'"
proof (induction acts arbitrary: s)
  case Nil
  then show ?case by simp
next
  case (Cons a acts)
  then show ?case
    by (auto split: option.splits dest: exec_consistent)
qed

text \<open>
  C8.  In every state the asynchronous server can reach, by uploads and by steps of its
  background tasks in any interleaving, one more step leaves each stored document in the
  store, and its status either as it was or one place further along
  \<open>pending\<close>, \<open>processing\<close>, \<open>completed\<close> or \<open>failed\<close>.  Nothing follows \<open>completed\<close> or \<open>failed\<close>, so
  a status never goes back and never leaves a final value.
\<close>

theorem status_moves_forward:
  assumes "run acts initial = Some s" and "exec a s = Some s'" and "store s i = Some r"
  shows "\<exists>r'. store s' i = Some r'
           \<and> (c_status r' = c_status r \<or> next_status (c_status r) (c_status r'))"
proof -
  have inv: "consistent s"
    using run_consistent [OF consistent_initial assms(1)] .
  show ?thesis
  proof (cases a)
    case (Upload gc cast new_id upl)
    with assms(2) have "store s new_id = None"
      by (auto split: if_splits)
    with assms(3) have "i \<noteq> new_id" by auto
    with Upload assms(2,3) show ?thesis
      by (cases upl) (auto simp: post_summarize_async_def split: if_splits)
  next
    case (Advance k)
    with assms(2) obtain e es where tk: "tasks s k = Some (e # es)"
      and s': "s' = \<lparr>store = perform e (store s), tasks = (tasks s)(k \<mapsto> es)\<rparr>"
      by (auto split: option.splits list.splits)
    from inv tk have ck: "confined k (e # es)"
      and wk: "status_writes (e # es) \<noteq> [] \<longrightarrow>
           (\<exists>r. store s k = Some r \<and> continues (c_status r) (status_writes (e # es)))"
      by (auto simp: consistent_def)
    show ?thesis
    proof (cases e)
      case (Update j p)
      with ck have jk: "j = k" by simp
      show ?thesis
      proof (cases "i = k")
        case True
        show ?thesis
        proof (cases "p_status p")
          case None
          with Update jk True s' assms(3) show ?thesis
            by (simp add: apply_patch_def)
        next
          case (Some st)
          with Update wk True assms(3) have "next_status (c_status r) st" by auto
          with Update jk True s' assms(3) Some show ?thesis
            by (simp add: apply_patch_def)
        qed
      next
        case False
        with Update jk s' assms(3) show ?thesis
          by (auto split: option.splits)
      qed
    qed (use ck s' assms(3) in auto)
  qed
qed

theorem status_moves_forward_witness:
  "\<exists>s s' r r'.
      run [Upload canned_provider as_given 7
             (Some \<lparr>originalname = units ''t.pdf'', parsed_text = Inr (units ''Tender text.'')\<rparr>)] initial
        = Some s
    \<and> exec (Advance 7) s = Some s'
    \<and> store s 7 = Some r \<and> c_status r = Pending
    \<and> store s' 7 = Some r' \<and> c_status r' = Processing
    \<and> (c_status r' = c_status r \<or> next_status (c_status r) (c_status r'))"
proof -
  let ?f = "\<lparr>originalname = units ''t.pdf'', parsed_text = Inr (units ''Tender text.'')\<rparr>"
  let ?s = "\<lparr>store = [7 \<mapsto> new_contract (units ''t.pdf'')],
             tasks = [7 \<mapsto> processContract canned_provider as_given 7 (Inr (units ''Tender text.'')) (units ''t.pdf'')]\<rparr>"
  obtain rest where task: "processContract canned_provider as_given 7 (Inr (units ''Tender text.'')) (units ''t.pdf'')
      = Update 7 (set_status Processing) # rest"
    by (simp add: processContract_def)
  let ?s' = "\<lparr>store = [7 \<mapsto> apply_patch (set_status Processing) (new_contract (units ''t.pdf''))],
              tasks = [7 \<mapsto> rest]\<rparr>"
  have r: "run [Upload canned_provider as_given 7 (Some ?f)] initial = Some ?s"
    by (simp add: initial_def post_summarize_async_def task)
  have e: "exec (Advance 7) ?s = Some ?s'"
    by (simp add: task)
  have g: "store ?s 7 = Some (new_contract (units ''t.pdf''))"
    by simp
  from status_moves_forward [OF r e g] r e show ?thesis
    by (auto simp: new_contract_def apply_patch_def set_status_def)
qed

section \<open>Back-filling the fixed fields\<close>









text \<open>The list and the count of its own documentation disagree: back-filling the empty
  object gives the 20 keys of the list, not 19.\<close>

lemma backfill_empty_object:
  "backfill (JObj []) = Inr (JObj (zip FIELD_LIST (replicate 20 JNull)))
   \<and> distinct FIELD_LIST \<and> length FIELD_LIST = 20 \<and> length FIELD_LIST \<noteq> 19"
  by code_simp

section \<open>Normalising the submittals\<close>












section \<open>Trimming\<close>

lemma length_trim: "length (trim s) \<le> length s"
proof -
  have "length (trim s) \<le> length (dropWhile is_space s)"
    unfolding trim_def by (metis length_dropWhile_le length_rev)
  also have "\<dots> \<le> length s"
    by (rule length_dropWhile_le)
  finally show ?thesis .
qed

lemma trim_prefix: "\<exists>u. dropWhile is_space s = trim s @ u"
proof -
  let ?d = "dropWhile is_space s"
  have "trim s @ rev (takeWhile is_space (rev ?d))
          = rev (takeWhile is_space (rev ?d) @ dropWhile is_space (rev ?d))"
    by (simp only: trim_def rev_append)
  also have "\<dots> = ?d"
    by (simp only: takeWhile_dropWhile_id rev_rev_ident)
  finally show ?thesis by metis
qed

lemma dropWhile_trim: "dropWhile is_space (trim s) = trim s"
proof (cases "trim s")
  case Nil
  then show ?thesis by simp
next
  case (Cons y ys)
  obtain u where u: "dropWhile is_space s = trim s @ u"
    using trim_prefix by blast
  with Cons have d: "dropWhile is_space s = y # ys @ u" by simp
  then have "dropWhile is_space s \<noteq> []" by simp
  then have "\<not> is_space (hd (dropWhile is_space s))" by (rule hd_dropWhile)
  with d have "\<not> is_space y" by simp
  with Cons show ?thesis by simp
qed

lemma trim_trim: "trim (trim s) = trim s"
proof -
  have "trim (trim s) = rev (dropWhile is_space (rev (trim s)))"
    by (simp add: trim_def [of "trim s"] dropWhile_trim)
  also have "\<dots> = trim s"
    by (simp add: trim_def)
  finally show ?thesis .
qed

lemma trim_Nil_iff: "trim s = [] \<longleftrightarrow> (\<forall>c \<in> set s. is_space c)"
proof
  assume "trim s = []"
  then have "dropWhile is_space (rev (dropWhile is_space s)) = []"
    unfolding trim_def by (simp only: rev_is_Nil_conv)
  then have "\<forall>c \<in> set (rev (dropWhile is_space s)). is_space c"
    by (simp only: dropWhile_eq_Nil_conv)
  then have "\<forall>c \<in> set (dropWhile is_space s). is_space c"
    by (simp only: set_rev)
  then have "dropWhile is_space s = []"
    by (metis hd_dropWhile hd_in_set)
  then show "\<forall>c \<in> set s. is_space c"
    by (simp only: dropWhile_eq_Nil_conv)
next
  assume "\<forall>c \<in> set s. is_space c"
  then have d: "dropWhile is_space s = []"
    by simp
  show "trim s = []"
    unfolding trim_def d by simp
qed

lemma hd_trim: "trim s \<noteq> [] \<Longrightarrow> \<not> is_space (hd (trim s))"
  by (metis dropWhile_trim hd_dropWhile)

section \<open>Cleaning a response and cutting out the brace-delimited part\<close>

lemma six_backticks_head: "take 6 (c # cs) = replicate 6 backtick \<Longrightarrow> c = backtick"
  by (simp add: numeral_eq_Suc)

lemma strip_fences_keep: "c \<noteq> backtick \<Longrightarrow> strip_fences (c # cs) = c # strip_fences cs"
proof -
  assume "c \<noteq> backtick"
  then have h: "take 6 (c # cs) \<noteq> replicate 6 backtick"
    using six_backticks_head by blast
  show ?thesis
    by (simp only: strip_fences.simps h if_False)
qed

lemma six_backticks_set: "take 6 xs = replicate 6 backtick \<Longrightarrow> n < 6 \<Longrightarrow> n < length xs \<and> xs ! n = backtick"
proof -
  assume a: "take 6 xs = replicate 6 backtick" and n: "n < 6"
  from a have "length (take 6 xs) = 6" by simp
  then have l: "6 \<le> length xs" by simp
  from a n l have "take 6 xs ! n = backtick" by simp
  with n l show ?thesis by simp
qed

lemma strip_fences_split:
  "c \<noteq> backtick \<Longrightarrow> strip_fences (xs @ c # ys) = strip_fences xs @ c # strip_fences ys"
proof (induction xs rule: strip_fences.induct)
  case 1
  then show ?case by (simp add: strip_fences_keep del: strip_fences.simps(2))
next
  case (2 a as)
  show ?case
  proof (cases "take 6 (a # as) = replicate 6 backtick")
    case True
    then have len: "5 \<le> length as"
      using six_backticks_set [of "a # as" 5] by simp
    then have t: "take 6 ((a # as) @ c # ys) = take 6 (a # as)"
      by simp
    from len have d: "drop 5 (as @ c # ys) = drop 5 as @ c # ys"
      by simp
    from True t d 2 show ?thesis
      by simp
  next
    case False
    have "take 6 ((a # as) @ c # ys) \<noteq> replicate 6 backtick"
    proof
      assume six: "take 6 ((a # as) @ c # ys) = replicate 6 backtick"
      show False
      proof (cases "6 \<le> length (a # as)")
        case True
        then have "take 6 ((a # as) @ c # ys) = take 6 (a # as)" by simp
        with six False show False by simp
      next
        case False
        then have n: "length (a # as) < 6" by simp
        from six_backticks_set [OF six n] have "((a # as) @ c # ys) ! length (a # as) = backtick"
          by simp
        then have "c = backtick"
          by (simp only: nth_append_length)
        with 2 show False by simp
      qed
    qed
    with False 2 show ?thesis
      by simp
  qed
qed

lemma strip_fences_before:
  assumes "ys \<noteq> []" and "hd ys \<noteq> backtick"
  shows "strip_fences (xs @ ys) = strip_fences xs @ strip_fences ys"
proof -
  from assms(1) obtain c t where ys: "ys = c # t" by (cases ys) auto
  with assms(2) have c: "c \<noteq> backtick" by simp
  show ?thesis
    unfolding ys using strip_fences_split [OF c, of xs t] strip_fences_keep [OF c, of t] by simp
qed

lemma strip_fences_after:
  assumes "s \<noteq> []" and "last s \<noteq> backtick"
  shows "strip_fences (s @ ys) = strip_fences s @ strip_fences ys"
proof -
  from assms(1) have s: "s = butlast s @ [last s]" by simp
  have "strip_fences (s @ ys) = strip_fences (butlast s @ last s # ys)"
    using s by (metis append_Cons append_Nil append_assoc)
  then have whole: "strip_fences (s @ ys) = strip_fences (butlast s) @ last s # strip_fences ys"
    by (simp only: strip_fences_split [OF assms(2)])
  have "strip_fences s = strip_fences (butlast s @ last s # [])"
    using s by simp
  then have "strip_fences s = strip_fences (butlast s) @ [last s]"
    by (simp only: strip_fences_split [OF assms(2)] strip_fences.simps)
  with whole show ?thesis by simp
qed

lemma set_strip_fences: "set (strip_fences xs) \<subseteq> set xs"
proof (induction xs rule: strip_fences.induct)
  case 1
  then show ?case by simp
next
  case (2 c cs)
  then show ?case
    by (auto dest: in_set_dropD)
qed

lemma set_trim: "set (trim xs) \<subseteq> set xs"
  by (auto simp: trim_def dest!: set_dropWhileD)

lemma set_clean_text: "set (clean_text t) \<subseteq> set t"
  unfolding clean_text_def using set_trim set_strip_fences by blast

lemma trim_wrap:
  assumes "s \<noteq> []" and "\<not> is_space (hd s)" and "\<not> is_space (last s)"
  shows "trim (a @ s @ b) = dropWhile is_space a @ s @ rev (dropWhile is_space (rev b))"
proof -
  from assms(1,2) have front: "dropWhile is_space (a @ s @ b) = dropWhile is_space a @ s @ b"
    by (cases s) (auto simp: dropWhile_append)
  from assms(1) have "rev s = last s # rev (butlast s)"
    by (metis append_butlast_last_id rev.simps(2) rev_rev_ident rev_swap)
  with assms(3) obtain y ys where r: "rev s = y # ys" and y: "\<not> is_space y"
    by blast
  have rear: "dropWhile is_space (rev b @ rev s @ rev (dropWhile is_space a))
               = dropWhile is_space (rev b) @ rev s @ rev (dropWhile is_space a)"
    unfolding r using y by (auto simp: dropWhile_append)
  show ?thesis
    by (simp add: trim_def front rear)
qed

lemma indexOf_first: "c \<notin> set a \<Longrightarrow> indexOf (a @ c # r) c = int (length a)"
proof -
  assume "c \<notin> set a"
  then have "takeWhile (\<lambda>x. x \<noteq> c) (a @ c # r) = a"
    by (auto simp: takeWhile_tail)
  then show ?thesis
    by (simp add: indexOf_def)
qed

lemma lastIndexOf_last: "c \<notin> set b \<Longrightarrow> lastIndexOf (r @ c # b) c = int (length r)"
proof -
  assume "c \<notin> set b"
  then have "takeWhile (\<lambda>x. x \<noteq> c) (rev b @ c # rev r) = rev b"
    by (auto simp: takeWhile_tail)
  then show ?thesis
    by (simp add: lastIndexOf_def)
qed

lemma slice_middle: "slice (a @ s @ b) (int (length a)) (int (length a + length s)) = s"
  by (simp add: slice_def clamp_index_def)

lemma indexOf_absent: "c \<notin> set s \<Longrightarrow> indexOf s c = - 1"
  by (simp add: indexOf_def)

lemma lastIndexOf_absent: "c \<notin> set s \<Longrightarrow> lastIndexOf s c = - 1"
  by (simp add: lastIndexOf_def)

lemma indexOf_present: "c \<in> set s \<Longrightarrow> indexOf s c \<noteq> - 1"
  by (simp add: indexOf_def)

lemma lastIndexOf_present: "c \<in> set s \<Longrightarrow> lastIndexOf s c \<noteq> - 1"
proof -
  assume "c \<in> set s"
  then have "dropWhile (\<lambda>x. x \<noteq> c) (rev s) \<noteq> []"
    by (simp add: dropWhile_eq_Nil_conv)
  moreover have "length (rev s) = length (takeWhile (\<lambda>x. x \<noteq> c) (rev s))
                   + length (dropWhile (\<lambda>x. x \<noteq> c) (rev s))"
    by (metis length_append takeWhile_dropWhile_id)
  ultimately have "length (takeWhile (\<lambda>x. x \<noteq> c) (rev s)) < length (rev s)"
    by simp
  with \<open>c \<in> set s\<close> show ?thesis
    by (simp add: lastIndexOf_def)
qed


lemma JSON_parse_Nil: "JSON_parse [] = None"
  by (simp add: JSON_parse_def skip_ws_def)

lemma JSON_parse_backtick: "JSON_parse (backtick # r) = None"
  by (simp add: JSON_parse_def skip_ws_def json_ws_def backtick_def dquote_def
        parse_number_def is_digit_def units_def cu_def)

lemma clean_text_wrap:
  assumes "s \<noteq> []" and "hd s = cu CHR ''{''" and "last s = cu CHR ''}''" and "strip_fences s = s"
  shows "clean_text (pre @ s @ post)
           = dropWhile is_space (strip_fences pre) @ s
             @ rev (dropWhile is_space (rev (strip_fences post)))"
proof -
  from assms(2) have h: "hd s \<noteq> backtick" by (simp add: backtick_def)
  from assms(3) have l: "last s \<noteq> backtick" by (simp add: backtick_def)
  from assms(1) have "s @ post \<noteq> []" and "hd (s @ post) = hd s" by simp_all
  with h have "strip_fences (pre @ s @ post) = strip_fences pre @ strip_fences (s @ post)"
    using strip_fences_before [of "s @ post" pre] by simp
  also have "strip_fences (s @ post) = s @ strip_fences post"
    using strip_fences_after [OF assms(1) l, of post] assms(4) by simp
  finally have "strip_fences (pre @ s @ post) = strip_fences pre @ s @ strip_fences post" .
  moreover from assms(2,3) have "\<not> is_space (hd s)" and "\<not> is_space (last s)"
    by (simp_all add: is_space_def cu_def)
  ultimately show ?thesis
    using trim_wrap [OF assms(1)] by (simp add: clean_text_def)
qed

lemma extractJson_wrapped:
  assumes p: "JSON_parse s = Some obj" and h: "hd s = cu CHR ''{''" and l: "last s = cu CHR ''}''"
    and u: "strip_fences s = s"
    and pre: "cu CHR ''{'' \<notin> set pre" and post: "cu CHR ''}'' \<notin> set post"
    and d: "JSON_parse (clean_text (pre @ s @ post)) = None
            \<or> (\<forall>c \<in> set pre. is_space c) \<and> (\<forall>c \<in> set post. is_space c)"
  shows "extractJson (pre @ s @ post) = Inr obj"
proof -
  let ?A = "dropWhile is_space (strip_fences pre)"
  let ?B = "rev (dropWhile is_space (rev (strip_fences post)))"
  let ?C = "clean_text (pre @ s @ post)"
  from p have ne: "s \<noteq> []" using JSON_parse_Nil by auto
  have c: "?C = ?A @ s @ ?B"
    by (rule clean_text_wrap [OF ne h l u])
  show ?thesis
  proof (cases "JSON_parse ?C")
    case None
    from pre have a: "cu CHR ''{'' \<notin> set ?A"
      using set_strip_fences [of pre] by (auto dest: set_dropWhileD)
    have "cu CHR ''}'' \<in> set ?B \<Longrightarrow> cu CHR ''}'' \<in> set (rev (strip_fences post))"
      using set_dropWhileD [of "cu CHR ''}''" is_space "rev (strip_fences post)"] by simp
    with post have b: "cu CHR ''}'' \<notin> set ?B"
      using set_strip_fences [of post] by auto
    from ne h have s1: "s = cu CHR ''{'' # tl s" by (cases s) auto
    from ne l have s2: "s = butlast s @ [cu CHR ''}'']" by (metis append_butlast_last_id)
    have "indexOf ?C (cu CHR ''{'') = indexOf (?A @ (cu CHR ''{'') # (tl s @ ?B)) (cu CHR ''{'')"
      unfolding c using s1 by (metis append_Cons)
    also have "\<dots> = int (length ?A)"
      by (rule indexOf_first [OF a])
    finally have first: "indexOf ?C (cu CHR ''{'') = int (length ?A)" .
    have "lastIndexOf ?C (cu CHR ''}'')
            = lastIndexOf ((?A @ butlast s) @ (cu CHR ''}'') # ?B) (cu CHR ''}'')"
      unfolding c using s2 by (metis append_Cons append_Nil append_assoc)
    also have "\<dots> = int (length (?A @ butlast s))"
      by (rule lastIndexOf_last [OF b])
    finally have "lastIndexOf ?C (cu CHR ''}'') = int (length (?A @ butlast s))" .
    moreover from ne have "length (butlast s) + 1 = length s" by simp
    ultimately have last: "lastIndexOf ?C (cu CHR ''}'') + 1 = int (length ?A + length s)"
      by simp
    have "slice ?C (indexOf ?C (cu CHR ''{'')) (lastIndexOf ?C (cu CHR ''}'') + 1)
            = slice ?C (int (length ?A)) (int (length ?A + length s))"
      by (simp only: first last)
    also have "\<dots> = s"
      unfolding c by (rule slice_middle)
    finally have cand: "slice ?C (indexOf ?C (cu CHR ''{'')) (lastIndexOf ?C (cu CHR ''}'') + 1) = s" .
    from first have f1: "indexOf ?C (cu CHR ''{'') \<noteq> - 1" by simp
    from ne have "0 < length ?A + length s" by simp
    with last have l1: "lastIndexOf ?C (cu CHR ''}'') \<noteq> - 1" by linarith
    have "extractJson (pre @ s @ post)
            = (case JSON_parse (slice ?C (indexOf ?C (cu CHR ''{'')) (lastIndexOf ?C (cu CHR ''}'') + 1)) of
                 Some v \<Rightarrow> Inr v | None \<Rightarrow> Inl SyntaxError)"
      unfolding extractJson_def Let_def using None f1 l1 by (simp only: option.case if_True simp_thms)
    then show ?thesis
      by (simp only: cand p option.case)
  next
    case (Some v)
    with d have blank: "(\<forall>c \<in> set pre. is_space c) \<and> (\<forall>c \<in> set post. is_space c)"
      by simp
    then have "\<forall>c \<in> set (strip_fences pre). is_space c"
      and "\<forall>c \<in> set (rev (strip_fences post)). is_space c"
      using set_strip_fences [of pre] set_strip_fences [of post] by auto
    then have "?A = []" and "?B = []"
      by simp_all
    with c p show ?thesis
      by (simp add: extractJson_def Let_def)
  qed
qed

lemma fence_parts:
  "strip_fences (replicate 3 backtick @ units ''json\<newline>'') = replicate 3 backtick @ units ''json\<newline>''"
  "dropWhile is_space (replicate 3 backtick @ units ''json\<newline>'') = replicate 3 backtick @ units ''json\<newline>''"
  "strip_fences (units ''\<newline>'' @ replicate 3 backtick) = units ''\<newline>'' @ replicate 3 backtick"
  "cu CHR ''{'' \<notin> set (replicate 3 backtick @ units ''json\<newline>'')"
  "cu CHR ''}'' \<notin> set (units ''\<newline>'' @ replicate 3 backtick)"
  by code_simp+

lemma extractJson_steps:
  "extractJson t =
     (case JSON_parse (clean_text t) of
        Some v \<Rightarrow> Inr v
      | None \<Rightarrow>
          if cu CHR ''{'' \<in> set (clean_text t) \<and> cu CHR ''}'' \<in> set (clean_text t) then
            (case JSON_parse (slice (clean_text t) (indexOf (clean_text t) (cu CHR ''{''))
                                (lastIndexOf (clean_text t) (cu CHR ''}'') + 1)) of
               Some v \<Rightarrow> Inr v
             | None \<Rightarrow> Inl SyntaxError)
          else Inl (Error (units ''Model response is not valid JSON'')))"
proof -
  have "indexOf (clean_text t) (cu CHR ''{'') \<noteq> - 1 \<longleftrightarrow> cu CHR ''{'' \<in> set (clean_text t)"
    using indexOf_present indexOf_absent by blast
  moreover have "lastIndexOf (clean_text t) (cu CHR ''}'') \<noteq> - 1 \<longleftrightarrow> cu CHR ''}'' \<in> set (clean_text t)"
    using lastIndexOf_present lastIndexOf_absent by blast
  ultimately show ?thesis
    by (simp add: extractJson_def Let_def split: option.splits)
qed

text \<open>
  C1, as the code has it.  \<open>extractJson\<close> cleans the text (its replacement of backtick runs,
  then \<open>trim\<close>), returns the direct parse of the cleaned text when there is one, otherwise
  parses the part of the cleaned text from its first \<open>{\<close> to its last \<open>}\<close> when it has
  both, and fails otherwise.  So
  for every text \<open>s\<close> that \<open>JSON.parse\<close> reads as \<open>obj\<close>, that starts with \<open>{\<close> and ends with
  \<open>}\<close>, and that the replacement leaves as it is: wrapped in a \<open>```json\<close> fence the text gives
  \<open>obj\<close>; and between a leading prose without \<open>{\<close> and a trailing prose without \<open>}\<close> it gives
  \<open>obj\<close> whenever the wrapped text is not valid JSON as a whole, or both proses are
  blank.
\<close>

theorem extractJson_roundtrip:
  assumes "JSON_parse s = Some obj" and "hd s = cu CHR ''{''" and "last s = cu CHR ''}''"
    and "strip_fences s = s"
  shows "extractJson t =
           (case JSON_parse (clean_text t) of
              Some v \<Rightarrow> Inr v
            | None \<Rightarrow>
                if cu CHR ''{'' \<in> set (clean_text t) \<and> cu CHR ''}'' \<in> set (clean_text t) then
                  (case JSON_parse (slice (clean_text t) (indexOf (clean_text t) (cu CHR ''{''))
                                      (lastIndexOf (clean_text t) (cu CHR ''}'') + 1)) of
                     Some v \<Rightarrow> Inr v
                   | None \<Rightarrow> Inl SyntaxError)
                else Inl (Error (units ''Model response is not valid JSON'')))
       \<and> extractJson (fenced s) = Inr obj
       \<and> (cu CHR ''{'' \<notin> set pre \<and> cu CHR ''}'' \<notin> set post
            \<and> (JSON_parse (clean_text (pre @ s @ post)) = None
                 \<or> (\<forall>c \<in> set pre. is_space c) \<and> (\<forall>c \<in> set post. is_space c))
          \<longrightarrow> extractJson (pre @ s @ post) = Inr obj)"
proof (intro conjI)
  show "extractJson t =
           (case JSON_parse (clean_text t) of
              Some v \<Rightarrow> Inr v
            | None \<Rightarrow>
                if cu CHR ''{'' \<in> set (clean_text t) \<and> cu CHR ''}'' \<in> set (clean_text t) then
                  (case JSON_parse (slice (clean_text t) (indexOf (clean_text t) (cu CHR ''{''))
                                      (lastIndexOf (clean_text t) (cu CHR ''}'') + 1)) of
                     Some v \<Rightarrow> Inr v
                   | None \<Rightarrow> Inl SyntaxError)
                else Inl (Error (units ''Model response is not valid JSON'')))"
    by (rule extractJson_steps)
next
  let ?pre = "replicate 3 backtick @ units ''json\<newline>''" and ?post = "(units ''\<newline>'') @ replicate 3 backtick"
  from assms(1) have ne: "s \<noteq> []" using JSON_parse_Nil by auto
  have f: "fenced s = ?pre @ s @ ?post"
    by (simp add: fenced_def)
  have "clean_text (?pre @ s @ ?post)
          = dropWhile is_space (strip_fences ?pre) @ s
            @ rev (dropWhile is_space (rev (strip_fences ?post)))"
    by (rule clean_text_wrap [OF ne assms(2,3,4)])
  then have "\<exists>r. clean_text (?pre @ s @ ?post) = backtick # r"
    by (simp only: fence_parts) (simp add: numeral_eq_Suc)
  then have "JSON_parse (clean_text (?pre @ s @ ?post)) = None"
    using JSON_parse_backtick by auto
  then show "extractJson (fenced s) = Inr obj"
    unfolding f using extractJson_wrapped [OF assms, of ?pre ?post] fence_parts(4,5) by blast
next
  show "cu CHR ''{'' \<notin> set pre \<and> cu CHR ''}'' \<notin> set post
            \<and> (JSON_parse (clean_text (pre @ s @ post)) = None
                 \<or> (\<forall>c \<in> set pre. is_space c) \<and> (\<forall>c \<in> set post. is_space c))
          \<longrightarrow> extractJson (pre @ s @ post) = Inr obj"
    using extractJson_wrapped [OF assms, of pre post] by blast
qed


theorem extractJson_roundtrip_witness:
  \<open>extractJson (fenced (units ''{"ClientName":"Acme"}'')) = Inr (JObj [(units ''ClientName'', JStr (units ''Acme''))])
   \<and> extractJson (units ''Here is the JSON: '' @ units ''{"ClientName":"Acme"}'' @ units '' Hope it helps.'')
       = Inr (JObj [(units ''ClientName'', JStr (units ''Acme''))])\<close>
proof -
  let ?s = \<open>units ''{"ClientName":"Acme"}''\<close>
  have p: "JSON_parse ?s = Some (JObj [(units ''ClientName'', JStr (units ''Acme''))])"
    by code_simp
  have h: "hd ?s = cu CHR ''{''" and l: "last ?s = cu CHR ''}''"
    by (simp_all add: units_def)
  have u: "strip_fences ?s = ?s"
    by code_simp
  have b: "cu CHR ''{'' \<notin> set (units ''Here is the JSON: '')"
    "cu CHR ''}'' \<notin> set (units '' Hope it helps.'')"
    by (simp_all add: units_def)
  have d: "JSON_parse (clean_text (units ''Here is the JSON: '' @ ?s @ units '' Hope it helps.'')) = None"
    by code_simp
  from extractJson_roundtrip [OF p h l u, of _ "units ''Here is the JSON: ''" "units '' Hope it helps.''"] b d
  show ?thesis
    by blast
qed

text \<open>The round trip as claimed, for every object and every prose, fails: a prose with a
  brace of its own moves the cut; a prose that makes the whole text valid JSON, here an
  array around the object, is parsed with it; and a string value holding six backticks
  loses them before the parse.\<close>

theorem roundtrip_counterexample:
  \<open>JSON_parse (units ''{"a":"b"}'') = Some (JObj [(units ''a'', JStr (units ''b''))])
   \<and> extractJson (units ''Result {see below}: '' @ units ''{"a":"b"}'') = Inl SyntaxError
   \<and> extractJson (units ''["'' @ [backslash] @ units ''u20ac", '' @ units ''{"a":"b"}'' @ units '']'')
       = Inr (JArr [JStr [0x20AC], JObj [(units ''a'', JStr (units ''b''))]])
   \<and> JSON_parse (units ''{"a":"'' @ replicate 6 backtick @ units ''"}'')
       = Some (JObj [(units ''a'', JStr (replicate 6 backtick))])
   \<and> extractJson (fenced (units ''{"a":"'' @ replicate 6 backtick @ units ''"}''))
       = Inr (JObj [(units ''a'', JStr [])])\<close>
  by code_simp

lemma json_ws_space: "json_ws c \<Longrightarrow> is_space c"
  by (auto simp: json_ws_def is_space_def)

lemma JSON_parse_bad_start:
  assumes "t \<noteq> []" and "\<not> is_space (hd t)" and "\<not> value_start (hd t)"
  shows "JSON_parse t = None"
proof -
  from assms(1) obtain c r where t: "t = c # r"
    by (cases t) auto
  from assms(2) t have "\<not> json_ws c"
    using json_ws_space by auto
  with t have w: "skip_ws t = c # r"
    by (simp add: skip_ws_def)
  from assms(3) t have c: \<open>c \<notin> set (units ''{["-0123456789tfn'')\<close>
    by (simp add: value_start_def)
  then have nd: "\<not> is_digit c"
    by (auto simp: is_digit_def units_def)
  from c have "parse_number (c # r) = None"
    using nd by (simp add: parse_number_def units_def)
  with c have "parse_value (Suc n) (c # r) = None" for n
    by (simp add: units_def dquote_def)
  then have "parse_value (2 * length t + 2) (c # r) = None"
    by simp
  with w show ?thesis
    by (simp add: JSON_parse_def)
qed

text \<open>
  C6, as the code has it.  When the cleaned text is not valid JSON as a whole: a text
  without \<open>{\<close> or without \<open>}\<close> fails with the error \<open>Model response is not valid JSON\<close>; and a
  text whose cleaned form has both, with the part from the first \<open>{\<close> to the last \<open>}\<close> not
  valid JSON, fails with the \<open>SyntaxError\<close> of \<open>JSON.parse\<close>.  No value is returned in either
  case.  The cleaned text is not valid JSON, in particular, when it is empty or begins
  with a code unit no JSON text begins with: such a text without \<open>{\<close> or without \<open>}\<close> fails
  with the first error.
\<close>

theorem extractJson_failure:
  "(JSON_parse (clean_text text) = None
      \<and> (cu CHR ''{'' \<notin> set text \<or> cu CHR ''}'' \<notin> set text)
      \<longrightarrow> extractJson text = Inl (Error (units ''Model response is not valid JSON'')))
   \<and> (JSON_parse (clean_text text) = None
        \<and> cu CHR ''{'' \<in> set (clean_text text) \<and> cu CHR ''}'' \<in> set (clean_text text)
        \<and> JSON_parse (slice (clean_text text) (indexOf (clean_text text) (cu CHR ''{''))
                         (lastIndexOf (clean_text text) (cu CHR ''}'') + 1)) = None
      \<longrightarrow> extractJson text = Inl SyntaxError)
   \<and> ((clean_text text = [] \<or> \<not> value_start (hd (clean_text text)))
        \<and> (cu CHR ''{'' \<notin> set text \<or> cu CHR ''}'' \<notin> set text)
      \<longrightarrow> extractJson text = Inl (Error (units ''Model response is not valid JSON'')))"
proof -
  have plain: "extractJson text = Inl (Error (units ''Model response is not valid JSON''))"
    if p: "JSON_parse (clean_text text) = None"
      and b: "cu CHR ''{'' \<notin> set text \<or> cu CHR ''}'' \<notin> set text"
  proof -
    from b have "cu CHR ''{'' \<notin> set (clean_text text) \<or> cu CHR ''}'' \<notin> set (clean_text text)"
      using set_clean_text [of "text"] by auto
    then have "indexOf (clean_text text) (cu CHR ''{'') = - 1
               \<or> lastIndexOf (clean_text text) (cu CHR ''}'') = - 1"
      using indexOf_absent lastIndexOf_absent by blast
    with p show ?thesis
      by (auto simp: extractJson_def Let_def)
  qed
  have cut: "extractJson text = Inl SyntaxError"
    if p: "JSON_parse (clean_text text) = None"
      and b: "cu CHR ''{'' \<in> set (clean_text text)" "cu CHR ''}'' \<in> set (clean_text text)"
      and c: "JSON_parse (slice (clean_text text) (indexOf (clean_text text) (cu CHR ''{''))
                         (lastIndexOf (clean_text text) (cu CHR ''}'') + 1)) = None"
  proof -
    from b have "indexOf (clean_text text) (cu CHR ''{'') \<noteq> - 1"
      and "lastIndexOf (clean_text text) (cu CHR ''}'') \<noteq> - 1"
      using indexOf_present lastIndexOf_present by blast+
    with p c show ?thesis
      by (simp add: extractJson_def Let_def)
  qed
  have begins: "JSON_parse (clean_text text) = None"
    if s: "clean_text text = [] \<or> \<not> value_start (hd (clean_text text))"
  proof (cases "clean_text text = []")
    case True
    then show ?thesis by (simp add: JSON_parse_Nil)
  next
    case False
    then have "\<not> is_space (hd (clean_text text))"
      unfolding clean_text_def by (rule hd_trim)
    with False s show ?thesis
      using JSON_parse_bad_start by blast
  qed
  show ?thesis
  proof (intro conjI impI)
    assume "JSON_parse (clean_text text) = None
      \<and> (cu CHR ''{'' \<notin> set text \<or> cu CHR ''}'' \<notin> set text)"
    then show "extractJson text = Inl (Error (units ''Model response is not valid JSON''))"
      using plain by blast
  next
    assume "JSON_parse (clean_text text) = None
        \<and> cu CHR ''{'' \<in> set (clean_text text) \<and> cu CHR ''}'' \<in> set (clean_text text)
        \<and> JSON_parse (slice (clean_text text) (indexOf (clean_text text) (cu CHR ''{''))
                         (lastIndexOf (clean_text text) (cu CHR ''}'') + 1)) = None"
    then show "extractJson text = Inl SyntaxError"
      using cut by blast
  next
    assume a: "(clean_text text = [] \<or> \<not> value_start (hd (clean_text text)))
        \<and> (cu CHR ''{'' \<notin> set text \<or> cu CHR ''}'' \<notin> set text)"
    then have "JSON_parse (clean_text text) = None"
      using begins by blast
    with a show "extractJson text = Inl (Error (units ''Model response is not valid JSON''))"
      using plain by blast
  qed
qed

theorem extractJson_failure_witness:
  "extractJson (units ''Sorry, I found nothing.'')
     = Inl (Error (units ''Model response is not valid JSON''))
   \<and> extractJson (units ''The fields are {ClientName: Acme}'') = Inl SyntaxError"
proof -
  let ?n = "units ''Sorry, I found nothing.''"
  have c1: "clean_text ?n = ?n"
    by code_simp
  have v1: "\<not> value_start (hd ?n)"
    by code_simp
  have b1: "cu CHR ''{'' \<notin> set ?n"
    by (simp add: units_def)
  let ?t = "units ''The fields are {ClientName: Acme}''"
  have n2: "JSON_parse (clean_text ?t) = None"
    by code_simp
  have b2: "cu CHR ''{'' \<in> set (clean_text ?t)" "cu CHR ''}'' \<in> set (clean_text ?t)"
    by code_simp+
  have c2: "JSON_parse (slice (clean_text ?t) (indexOf (clean_text ?t) (cu CHR ''{''))
                             (lastIndexOf (clean_text ?t) (cu CHR ''}'') + 1)) = None"
    by code_simp
  from extractJson_failure [of ?n] c1 v1 b1 extractJson_failure [of ?t] n2 b2 c2
  show ?thesis
    by simp
qed

text \<open>Without the condition on the direct parse the claim fails: \<open>[]\<close> has no brace, and
  the brace-delimited part of \<open>["{", "}"]\<close> is not valid JSON, yet both texts are returned
  as the arrays they are.\<close>

theorem no_brace_counterexample:
  \<open>extractJson (units ''[]'') = Inr (JArr [])
   \<and> cu CHR ''{'' \<notin> set (units ''[]'')
   \<and> extractJson (units ''["{", "}"]'') = Inr (JArr [JStr (units ''{''), JStr (units ''}'')])
   \<and> JSON_parse (slice (units ''["{", "}"]'') (indexOf (units ''["{", "}"]'') (cu CHR ''{''))
                   (lastIndexOf (units ''["{", "}"]'') (cu CHR ''}'') + 1)) = None\<close>
  by code_simp

section \<open>The length of the chunks of a long text\<close>

lemma seeded_chunk_mono:
  "seeded_chunk txt ov chunks c \<Longrightarrow> set chunks \<subseteq> set chunks' \<Longrightarrow> seeded_chunk txt ov chunks' c"
  unfolding seeded_chunk_def by blast

lemma seeded_chunk_text_mono:
  "seeded_chunk_text txt ov chunks c \<Longrightarrow> set chunks \<subseteq> set chunks'
     \<Longrightarrow> seeded_chunk_text txt ov chunks' c"
  unfolding seeded_chunk_text_def by blast

lemma smartChunks_loop_chunks:
  assumes "smartChunks_loop mx ov ss out cur = (out', cur')"
    and "set ss \<subseteq> set (sentences_of txt)"
    and "\<forall>c \<in> set out. length c \<le> mx + 1 \<or> sentence_chunk txt c \<or> seeded_chunk txt ov out c"
    and "length (trim cur) \<le> mx + 1 \<or> sentence_chunk txt (trim cur)
           \<or> seeded_chunk txt ov out (trim cur)"
  shows "set out \<subseteq> set out'
       \<and> (\<forall>c \<in> set out'. length c \<le> mx + 1 \<or> sentence_chunk txt c \<or> seeded_chunk txt ov out' c)
       \<and> (length (trim cur') \<le> mx + 1 \<or> sentence_chunk txt (trim cur')
           \<or> seeded_chunk txt ov out' (trim cur'))"
  using assms
proof (induction ss arbitrary: out cur)
  case Nil
  then show ?case by simp
next
  case (Cons sent ss)
  from Cons.prems(2) have sent: "sent \<in> set (sentences_of txt)"
    and rest: "set ss \<subseteq> set (sentences_of txt)"
    by simp_all
  show ?case
  proof (cases "length cur + length sent > mx \<and> cur \<noteq> []")
    case True
    let ?out = "out @ [trim cur]"
    let ?cur = "overlap_words ov cur @ units '' '' @ sent"
    from True Cons.prems(1) have run: "smartChunks_loop mx ov ss ?out ?cur = (out', cur')"
      by simp
    have sub: "set out \<subseteq> set ?out" by auto
    have old: "\<forall>c \<in> set ?out. length c \<le> mx + 1 \<or> sentence_chunk txt c
                 \<or> seeded_chunk txt ov ?out c"
      using Cons.prems(3,4) seeded_chunk_mono [OF _ sub] by auto
    have "seeded_chunk txt ov ?out (trim ?cur)"
      unfolding seeded_chunk_def using sent by auto
    then have new: "length (trim ?cur) \<le> mx + 1 \<or> sentence_chunk txt (trim ?cur)
                 \<or> seeded_chunk txt ov ?out (trim ?cur)"
      by simp
    from Cons.IH [OF run rest old new] sub show ?thesis
      by auto
  next
    case False
    let ?cur = "cur @ (if cur \<noteq> [] then units '' '' else []) @ trim sent"
    from Cons.prems(1) have run: "smartChunks_loop mx ov ss out ?cur = (out', cur')"
      by (simp only: smartChunks_loop.simps False if_False)
    have new: "length (trim ?cur) \<le> mx + 1 \<or> sentence_chunk txt (trim ?cur)
                 \<or> seeded_chunk txt ov out (trim ?cur)"
    proof (cases "cur = []")
      case True
      then have "trim ?cur = trim sent"
        by (simp add: trim_trim)
      with sent show ?thesis
        unfolding sentence_chunk_def by auto
    next
      case nonempty: False
      with False have "length cur + length sent \<le> mx" by simp
      moreover have "length (trim sent) \<le> length sent" by (rule length_trim)
      ultimately have "length ?cur \<le> mx + 1"
        using nonempty by simp
      moreover have "length (trim ?cur) \<le> length ?cur" by (rule length_trim)
      ultimately show ?thesis by linarith
    qed
    from Cons.IH [OF run rest Cons.prems(3) new] show ?thesis .
  qed
qed

lemma smartChunkText_loop_chunks:
  assumes "smartChunkText_loop mx ov ss out cur = (out', cur')"
    and "set ss \<subseteq> set (sentences_of txt)"
    and "\<forall>c \<in> set out. length c \<le> mx + 1 \<or> sentence_chunk txt c
           \<or> seeded_chunk_text txt ov out c"
    and "length (trim cur) \<le> mx + 1 \<or> sentence_chunk txt (trim cur)
           \<or> seeded_chunk_text txt ov out (trim cur)"
  shows "set out \<subseteq> set out'
       \<and> (\<forall>c \<in> set out'. length c \<le> mx + 1 \<or> sentence_chunk txt c
             \<or> seeded_chunk_text txt ov out' c)
       \<and> (length (trim cur') \<le> mx + 1 \<or> sentence_chunk txt (trim cur')
           \<or> seeded_chunk_text txt ov out' (trim cur'))"
  using assms
proof (induction ss arbitrary: out cur)
  case Nil
  then show ?case by simp
next
  case (Cons sent ss)
  from Cons.prems(2) have sent: "sent \<in> set (sentences_of txt)"
    and rest: "set ss \<subseteq> set (sentences_of txt)"
    by simp_all
  show ?case
  proof (cases "length cur + length (trim sent) > mx \<and> length cur > 0")
    case True
    let ?out = "out @ [trim cur]"
    let ?cur = "overlap_words ov (trim cur) @ units '' '' @ trim sent"
    from True Cons.prems(1) have run: "smartChunkText_loop mx ov ss ?out ?cur = (out', cur')"
      by simp
    have sub: "set out \<subseteq> set ?out" by auto
    have old: "\<forall>c \<in> set ?out. length c \<le> mx + 1 \<or> sentence_chunk txt c
                 \<or> seeded_chunk_text txt ov ?out c"
      using Cons.prems(3,4) seeded_chunk_text_mono [OF _ sub] by auto
    have "seeded_chunk_text txt ov ?out (trim ?cur)"
      unfolding seeded_chunk_text_def using sent by auto
    then have new: "length (trim ?cur) \<le> mx + 1 \<or> sentence_chunk txt (trim ?cur)
                 \<or> seeded_chunk_text txt ov ?out (trim ?cur)"
      by simp
    from Cons.IH [OF run rest old new] sub show ?thesis
      by auto
  next
    case False
    let ?cur = "cur @ (if cur \<noteq> [] then units '' '' else []) @ trim sent"
    from Cons.prems(1) have run: "smartChunkText_loop mx ov ss out ?cur = (out', cur')"
      by (simp only: smartChunkText_loop.simps False if_False)
    have new: "length (trim ?cur) \<le> mx + 1 \<or> sentence_chunk txt (trim ?cur)
                 \<or> seeded_chunk_text txt ov out (trim ?cur)"
    proof (cases "cur = []")
      case True
      then have "trim ?cur = trim sent"
        by (simp add: trim_trim)
      with sent show ?thesis
        unfolding sentence_chunk_def by auto
    next
      case nonempty: False
      with False have "length cur + length (trim sent) \<le> mx" by simp
      then have "length ?cur \<le> mx + 1"
        using nonempty by simp
      moreover have "length (trim ?cur) \<le> length ?cur" by (rule length_trim)
      ultimately show ?thesis by linarith
    qed
    from Cons.IH [OF run rest Cons.prems(3) new] show ?thesis .
  qed
qed


lemma is_end_not_space: "is_end c \<Longrightarrow> \<not> is_space c"
  by (auto simp: is_end_def is_space_def cu_def)

lemma match_sentences_end: "sent \<in> set (match_sentences t) \<Longrightarrow> \<exists>c \<in> set sent. is_end c"
proof (induction t rule: match_sentences.induct)
  case 1
  then show ?case by simp
next
  case (2 c cs)
  let ?rest = "dropWhile (\<lambda>x. \<not> is_end x) cs"
  show ?case
  proof (cases "is_end c")
    case True
    with 2(1,3) show ?thesis by simp
  next
    case False
    show ?thesis
    proof (cases "?rest = []")
      case True
      with 2(3) False show ?thesis by simp
    next
      case nonempty: False
      then have "\<not> \<not> is_end (hd ?rest)" by (rule hd_dropWhile)
      with nonempty have h: "hd ?rest \<in> set (takeWhile is_end ?rest)"
        by (cases ?rest) auto
      from 2(3)
      have "sent \<in> set ((c # takeWhile (\<lambda>x. \<not> is_end x) cs @ takeWhile is_end ?rest)
                         # match_sentences (dropWhile is_end ?rest))"
        by (simp only: match_sentences.simps False nonempty if_False)
      then have "sent = c # takeWhile (\<lambda>x. \<not> is_end x) cs @ takeWhile is_end ?rest
              \<or> sent \<in> set (match_sentences (dropWhile is_end ?rest))"
        by (simp only: set_simps insert_iff)
      then show ?thesis
      proof
        assume "sent = c # takeWhile (\<lambda>x. \<not> is_end x) cs @ takeWhile is_end ?rest"
        with h have "hd ?rest \<in> set sent" by simp
        moreover from \<open>\<not> \<not> is_end (hd ?rest)\<close> have "is_end (hd ?rest)" by simp
        ultimately show ?thesis by blast
      next
        assume "sent \<in> set (match_sentences (dropWhile is_end ?rest))"
        with 2(2) [OF False nonempty] show ?thesis .
      qed
    qed
  qed
qed

lemma smartChunkText_loop_grows:
  "smartChunkText_loop mx ov ss out cur = (out', cur') \<Longrightarrow> set out \<subseteq> set out'"
proof (induction ss arbitrary: out cur)
  case Nil
  then show ?case by simp
next
  case (Cons sent ss)
  then show ?case
    by (cases "length cur + length (trim sent) > mx \<and> length cur > 0") (auto dest!: Cons.IH)
qed

lemma smartChunkText_loop_blank:
  assumes "smartChunkText_loop mx ov ss out cur = ([], cur')" and "\<forall>c \<in> set cur'. is_space c"
  shows "(\<forall>c \<in> set cur. is_space c) \<and> (\<forall>sent \<in> set ss. trim sent = [])"
  using assms
proof (induction ss arbitrary: out cur)
  case Nil
  then show ?case by simp
next
  case (Cons sent ss)
  show ?case
  proof (cases "length cur + length (trim sent) > mx \<and> length cur > 0")
    case True
    with Cons.prems(1)
    have "smartChunkText_loop mx ov ss (out @ [trim cur])
            (overlap_words ov (trim cur) @ units '' '' @ trim sent) = ([], cur')"
      by simp
    from smartChunkText_loop_grows [OF this] show ?thesis by simp
  next
    case False
    let ?cur = "cur @ (if cur \<noteq> [] then units '' '' else []) @ trim sent"
    from Cons.prems(1) have run: "smartChunkText_loop mx ov ss out ?cur = ([], cur')"
      by (simp only: smartChunkText_loop.simps False if_False)
    from Cons.IH [OF run Cons.prems(2)]
    have b: "\<forall>c \<in> set ?cur. is_space c" and r: "\<forall>sent \<in> set ss. trim sent = []"
      by simp_all
    from b have "\<forall>c \<in> set (trim sent). is_space c" by simp
    then have "trim (trim sent) = []" by (simp only: trim_Nil_iff)
    then have "trim sent = []" by (simp only: trim_trim)
    with b r show ?thesis by simp
  qed
qed

lemma blank_sentences:
  assumes "\<forall>sent \<in> set (sentences_of txt). trim sent = []"
  shows "trim txt = []"
proof (cases "match_sentences txt")
  case Nil
  with assms show ?thesis by (simp add: sentences_of_def)
next
  case (Cons sent ss)
  then have m: "sent \<in> set (match_sentences txt)" by simp
  with Cons assms have "trim sent = []" by (simp add: sentences_of_def)
  then have "\<forall>c \<in> set sent. is_space c" by (simp only: trim_Nil_iff)
  with match_sentences_end [OF m] is_end_not_space show ?thesis by blast
qed

text \<open>
  C3, as the code has it.  For a text longer than the maximum, every chunk of either
  chunker that is longer than the maximum plus one is a sentence chunk (one sentence,
  trimmed) or a seeded chunk (the overlap words of a chunk closed before, a space and one
  sentence).  \<open>smartChunkText\<close> has one more case: a blank text comes back whole.
\<close>

theorem chunk_length_bound:
  assumes "length txt > mx"
  shows "(\<forall>c \<in> set (smartChunks txt mx ov).
            length c \<le> mx + 1 \<or> sentence_chunk txt c
            \<or> seeded_chunk txt ov (smartChunks txt mx ov) c)
       \<and> (\<forall>c \<in> set (smartChunkText txt mx ov).
            length c \<le> mx + 1 \<or> sentence_chunk txt c
            \<or> seeded_chunk_text txt ov (smartChunkText txt mx ov) c
            \<or> (c = txt \<and> trim txt = []))"
proof
  obtain out cur where run: "smartChunks_loop mx ov (sentences_of txt) [] [] = (out, cur)"
    by (cases "smartChunks_loop mx ov (sentences_of txt) [] []") auto
  let ?chunks = "if trim cur \<noteq> [] then out @ [trim cur] else out"
  from assms run have res: "smartChunks txt mx ov = ?chunks"
    by (simp add: smartChunks_def)
  have init: "length (trim []) \<le> mx + 1 \<or> sentence_chunk txt (trim [])
                \<or> seeded_chunk txt ov [] (trim [])"
    by (simp add: trim_def)
  from smartChunks_loop_chunks [OF run subset_refl _ init]
  have o: "\<forall>c \<in> set out. length c \<le> mx + 1 \<or> sentence_chunk txt c \<or> seeded_chunk txt ov out c"
    and c: "length (trim cur) \<le> mx + 1 \<or> sentence_chunk txt (trim cur)
              \<or> seeded_chunk txt ov out (trim cur)"
    by simp_all
  have sub: "set out \<subseteq> set ?chunks" by auto
  have "\<forall>c \<in> set ?chunks. length c \<le> mx + 1 \<or> sentence_chunk txt c
          \<or> seeded_chunk txt ov ?chunks c"
    using o c seeded_chunk_mono [OF _ sub] by (auto split: if_splits)
  then show "\<forall>c \<in> set (smartChunks txt mx ov).
            length c \<le> mx + 1 \<or> sentence_chunk txt c
            \<or> seeded_chunk txt ov (smartChunks txt mx ov) c"
    by (simp only: res)
next
  obtain out cur where run: "smartChunkText_loop mx ov (sentences_of txt) [] [] = (out, cur)"
    by (cases "smartChunkText_loop mx ov (sentences_of txt) [] []") auto
  let ?chunks = "if trim cur \<noteq> [] then out @ [trim cur] else out"
  from assms run have res: "smartChunkText txt mx ov = (if length ?chunks > 0 then ?chunks else [txt])"
    by (simp add: smartChunkText_def Let_def)
  have init: "length (trim []) \<le> mx + 1 \<or> sentence_chunk txt (trim [])
                \<or> seeded_chunk_text txt ov [] (trim [])"
    by (simp add: trim_def)
  from smartChunkText_loop_chunks [OF run subset_refl _ init]
  have o: "\<forall>c \<in> set out. length c \<le> mx + 1 \<or> sentence_chunk txt c
              \<or> seeded_chunk_text txt ov out c"
    and c: "length (trim cur) \<le> mx + 1 \<or> sentence_chunk txt (trim cur)
              \<or> seeded_chunk_text txt ov out (trim cur)"
    by simp_all
  have sub: "set out \<subseteq> set ?chunks" by auto
  have all: "\<forall>c \<in> set ?chunks. length c \<le> mx + 1 \<or> sentence_chunk txt c
          \<or> seeded_chunk_text txt ov ?chunks c"
    using o c seeded_chunk_text_mono [OF _ sub] by (auto split: if_splits)
  show "\<forall>c \<in> set (smartChunkText txt mx ov).
            length c \<le> mx + 1 \<or> sentence_chunk txt c
            \<or> seeded_chunk_text txt ov (smartChunkText txt mx ov) c
            \<or> (c = txt \<and> trim txt = [])"
  proof (cases "length ?chunks > 0")
    case True
    with res have eq: "smartChunkText txt mx ov = ?chunks" by simp
    show ?thesis
      unfolding eq using all by blast
  next
    case False
    then have e: "out = []" and t: "trim cur = []"
      by (auto split: if_splits)
    from t have "\<forall>c \<in> set cur. is_space c" by (simp only: trim_Nil_iff)
    with smartChunkText_loop_blank [of mx ov "sentences_of txt" "[]" "[]" cur] run e
    have "\<forall>sent \<in> set (sentences_of txt). trim sent = []" by simp
    then have "trim txt = []" by (rule blank_sentences)
    moreover from False res have "smartChunkText txt mx ov = [txt]" by simp
    ultimately show ?thesis by simp
  qed
qed

theorem chunk_length_bound_witness:
  "length (units ''Submit the bid bond. Late bids are void.'') > 20
   \<and> (units ''bond.  Late bids are void.'')
       \<in> set (smartChunks (units ''Submit the bid bond. Late bids are void.'') 20 6)
   \<and> (length (units ''bond.  Late bids are void.'') \<le> 20 + 1
      \<or> sentence_chunk (units ''Submit the bid bond. Late bids are void.'')
           (units ''bond.  Late bids are void.'')
      \<or> seeded_chunk (units ''Submit the bid bond. Late bids are void.'') 6
           (smartChunks (units ''Submit the bid bond. Late bids are void.'') 20 6)
           (units ''bond.  Late bids are void.''))"
proof -
  let ?t = "units ''Submit the bid bond. Late bids are void.''"
  let ?c = "units ''bond.  Late bids are void.''"
  have long: "length ?t > 20"
    by simp
  have chunks: "smartChunks ?t 20 6 = [units ''Submit the bid bond.'', ?c]"
    by code_simp
  have mem: "?c \<in> set (smartChunks ?t 20 6)"
    unfolding chunks by simp
  from chunk_length_bound [OF long, of 6]
  have "\<forall>c \<in> set (smartChunks ?t 20 6). length c \<le> 20 + 1 \<or> sentence_chunk ?t c
          \<or> seeded_chunk ?t 6 (smartChunks ?t 20 6) c"
    by (rule conjunct1)
  from bspec [OF this mem] long mem show ?thesis
    by (intro conjI)
qed

text \<open>The bound as claimed fails: with a maximum of 20 the second chunk has 26
  characters (25 in \<open>smartChunkText\<close>), though it holds the one overlap word and a sentence
  of 20 characters, not a sentence longer than the maximum.\<close>

theorem chunk_bound_counterexample:
  "sentences_of (units ''Submit the bid bond. Late bids are void.'')
     = [units ''Submit the bid bond.'', units '' Late bids are void.'']
   \<and> smartChunks (units ''Submit the bid bond. Late bids are void.'') 20 6
     = [units ''Submit the bid bond.'', units ''bond.  Late bids are void.'']
   \<and> smartChunkText (units ''Submit the bid bond. Late bids are void.'') 20 6
     = [units ''Submit the bid bond.'', units ''bond. Late bids are void.'']
   \<and> length (units '' Late bids are void.'') = 20
   \<and> length (units ''bond.  Late bids are void.'') = 26
   \<and> length (units ''bond. Late bids are void.'') = 25"
  by code_simp

end
